theory Spec2Isabelle
  imports Main
begin

section \<open>The puzzle grid of \<^verbatim>\<open>src/solve.py\<close>\<close>

text \<open>
  A \<^verbatim>\<open>Sudoku\<close> object holds one field, \<^verbatim>\<open>_puzzle\<close>, a list of rows, each row a
  list of Python integers. Every row is a list object of its own (each is built by a
  separate \<^verbatim>\<open>list(map(int, ...))\<close>), so writing one cell changes no other row, and the
  in-place writes of the search are modelled by passing the grid along and returning it.

  Positions are natural numbers: the search is entered at \<open>(0, 0)\<close> and
  \<^verbatim>\<open>_next_location\<close> yields only components between 0 and 8, so the wrap-around of
  negative Python indices is never reached and is not modelled. An index beyond the end
  of a list raises \<^verbatim>\<open>IndexError\<close>; a character that \<^verbatim>\<open>int\<close> rejects raises
  \<^verbatim>\<open>ValueError\<close>.
\<close>

type_synonym grid = "int list list"

datatype error = IndexError | ValueError

text \<open>The read \<^verbatim>\<open>self._puzzle[i][j]\<close>.\<close>

definition cell :: "grid \<Rightarrow> nat \<Rightarrow> nat \<Rightarrow> error + int" where
  "cell g i j =
     (if i < length g then
        (if j < length (g ! i) then Inr (g ! i ! j) else Inl IndexError)
      else Inl IndexError)"

text \<open>The write \<^verbatim>\<open>self._puzzle[i][j] = v\<close>.\<close>

definition set_cell :: "grid \<Rightarrow> nat \<Rightarrow> nat \<Rightarrow> int \<Rightarrow> error + grid" where
  "set_cell g i j v =
     (if i < length g then
        (if j < length (g ! i) then Inr (g[i := (g ! i)[j := v]]) else Inl IndexError)
      else Inl IndexError)"

section \<open>Building the grid from a string\<close>

text \<open>
  \<^verbatim>\<open>_split_string_interval(string, n)\<close> is
  \<^verbatim>\<open>[string[x : x + n] for x in range(0, len(string), n)]\<close>: consecutive slices of
  length \<open>n\<close>, the last one possibly shorter, none for the empty string. The source
  calls it with \<open>n = 9\<close> and \<open>n = 1\<close> only; \<open>range\<close> rejects a step of 0, which no call
  of the source passes, and the model returns no slice there.
\<close>

fun split_string_interval :: "'a list \<Rightarrow> nat \<Rightarrow> 'a list list" where
  "split_string_interval s n =
     (if s = [] \<or> n = 0 then []
      else take n s # split_string_interval (drop n s) n)"

declare split_string_interval.simps [simp del]

text \<open>
  Python's \<^verbatim>\<open>int\<close> applied to a string of one character. Characters are the 8-bit
  characters of \<^typ>\<open>string\<close>; among them \<^verbatim>\<open>int\<close> accepts exactly the ASCII digits
  and raises \<^verbatim>\<open>ValueError\<close> on every other one.
\<close>

definition is_digit :: "char \<Rightarrow> bool" where
  "is_digit c = ((48::nat) \<le> of_char c \<and> of_char c \<le> (57::nat))"

definition int_of_str :: "string \<Rightarrow> error + int" where
  "int_of_str s =
     (case s of
        [c] \<Rightarrow> if is_digit c then Inr (of_char c - 48) else Inl ValueError
      | _ \<Rightarrow> Inl ValueError)"

text \<open>\<^verbatim>\<open>list(map(int, xs))\<close>: the first failing conversion raises.\<close>

fun map_int :: "string list \<Rightarrow> error + int list" where
  "map_int [] = Inr []"
| "map_int (x # xs) =
     (case int_of_str x of
        Inl e \<Rightarrow> Inl e
      | Inr v \<Rightarrow> (case map_int xs of Inl e \<Rightarrow> Inl e | Inr vs \<Rightarrow> Inr (v # vs)))"

text \<open>The loop of \<^verbatim>\<open>_create_puzzle_grid\<close> over the slices of length 9.\<close>

fun create_rows :: "string list \<Rightarrow> error + grid" where
  "create_rows [] = Inr []"
| "create_rows (d # ds) =
     (case map_int (split_string_interval d 1) of
        Inl e \<Rightarrow> Inl e
      | Inr row \<Rightarrow> (case create_rows ds of Inl e \<Rightarrow> Inl e | Inr rows \<Rightarrow> Inr (row # rows)))"

definition create_puzzle_grid :: "string \<Rightarrow> error + grid" where
  "create_puzzle_grid s = create_rows (split_string_interval s 9)"

section \<open>Traversal and legality check\<close>

text \<open>\<^verbatim>\<open>_next_location\<close>, with \<^verbatim>\<open>None\<close> as \<^term>\<open>None\<close>.\<close>

definition next_location :: "nat \<Rightarrow> nat \<Rightarrow> (nat \<times> nat) option" where
  "next_location i j =
     (let next_j = (j + 1) mod 9 in
      if next_j = 0 then
        (let next_i = (i + 1) mod 9 in
         if next_i \<noteq> 0 then Some (next_i, next_j) else None)
      else Some (i, next_j))"

text \<open>
  Each of the three loops of \<^verbatim>\<open>_is_valid_guess\<close> reads a sequence of cells in order
  and returns \<^verbatim>\<open>False\<close> at the first one that holds the guess; \<open>scan\<close> is such a loop
  over the positions \<open>ps\<close>, with \<^term>\<open>Inr True\<close> for "found" and the error of the first
  failing read.
\<close>

fun scan :: "grid \<Rightarrow> (nat \<times> nat) list \<Rightarrow> int \<Rightarrow> error + bool" where
  "scan g [] guess = Inr False"
| "scan g ((r, c) # ps) guess =
     (case cell g r c of
        Inl e \<Rightarrow> Inl e
      | Inr v \<Rightarrow> if v = guess then Inr True else scan g ps guess)"

definition row_cells :: "nat \<Rightarrow> (nat \<times> nat) list" where
  "row_cells i = map (\<lambda>var_col. (i, var_col)) [0..<9]"

definition col_cells :: "nat \<Rightarrow> (nat \<times> nat) list" where
  "col_cells j = map (\<lambda>var_row. (var_row, j)) [0..<9]"

definition box_cells :: "nat \<Rightarrow> nat \<Rightarrow> (nat \<times> nat) list" where
  "box_cells start_x start_y =
     concat (map (\<lambda>var_row. map (\<lambda>var_col. (var_row, var_col)) [start_y..<start_y + 3])
                 [start_x..<start_x + 3])"

definition is_valid_guess :: "grid \<Rightarrow> nat \<Rightarrow> nat \<Rightarrow> int \<Rightarrow> error + bool" where
  "is_valid_guess g i j guess =
     (case scan g (row_cells i) guess of
        Inl e \<Rightarrow> Inl e
      | Inr True \<Rightarrow> Inr False
      | Inr False \<Rightarrow>
          (case scan g (col_cells j) guess of
             Inl e \<Rightarrow> Inl e
           | Inr True \<Rightarrow> Inr False
           | Inr False \<Rightarrow>
               (case scan g (box_cells ((i div 3) * 3) ((j div 3) * 3)) guess of
                  Inl e \<Rightarrow> Inl e
                | Inr True \<Rightarrow> Inr False
                | Inr False \<Rightarrow> Inr True)))"

section \<open>The search\<close>

text \<open>
  \<^verbatim>\<open>solve(i, j)\<close> returns the boolean together with the grid it leaves behind.
  \<open>guess_loop g i j guess\<close> is the loop \<^verbatim>\<open>for guess in range(1, 10)\<close> from the
  iteration for \<open>guess\<close> on, in grid state \<open>g\<close>, followed by the two statements after
  the loop (the reset of the cell and \<^verbatim>\<open>return False\<close>).
\<close>

definition rank :: "nat \<Rightarrow> nat \<Rightarrow> nat" where
  "rank i j = 9 * (i mod 9) + j mod 9"

text \<open>The row-major rank of a position grows by one at each step of the traversal.\<close>

lemma rank_less: "rank i j < 81"
proof -
  have "i mod 9 \<le> 8" "j mod 9 \<le> 8" by simp_all
  then show ?thesis unfolding rank_def by linarith
qed

lemma next_location_rank:
  assumes "next_location i j = Some (ni, nj)"
  shows "rank ni nj = Suc (rank i j) \<and> rank i j < 80"
proof -
  have "rank ni nj = Suc (rank i j)"
    using assms unfolding next_location_def rank_def Let_def
    by (auto split: if_splits simp: mod_Suc)
  moreover have "rank ni nj < 81" by (rule rank_less)
  ultimately show ?thesis by simp
qed

function solve :: "grid \<Rightarrow> nat \<Rightarrow> nat \<Rightarrow> error + (bool \<times> grid)"
  and guess_loop :: "grid \<Rightarrow> nat \<Rightarrow> nat \<Rightarrow> int \<Rightarrow> error + (bool \<times> grid)" where
  "solve g i j =
     (case cell g i j of
        Inl e \<Rightarrow> Inl e
      | Inr v \<Rightarrow>
          if v \<noteq> 0 then
            (case next_location i j of
               None \<Rightarrow> Inr (True, g)
             | Some (next_i, next_j) \<Rightarrow> solve g next_i next_j)
          else guess_loop g i j 1)"
| "guess_loop g i j guess =
     (if guess < 10 then
        (case is_valid_guess g i j guess of
           Inl e \<Rightarrow> Inl e
         | Inr False \<Rightarrow> guess_loop g i j (guess + 1)
         | Inr True \<Rightarrow>
             (case set_cell g i j guess of
                Inl e \<Rightarrow> Inl e
              | Inr g1 \<Rightarrow>
                  (case next_location i j of
                     None \<Rightarrow> Inr (True, g1)
                   | Some (next_i, next_j) \<Rightarrow>
                       (case solve g1 next_i next_j of
                          Inl e \<Rightarrow> Inl e
                        | Inr (True, g2) \<Rightarrow> Inr (True, g2)
                        | Inr (False, g2) \<Rightarrow> guess_loop g2 i j (guess + 1)))))
      else
        (case set_cell g i j 0 of
           Inl e \<Rightarrow> Inl e
         | Inr g' \<Rightarrow> Inr (False, g')))"
  by pat_completeness auto

termination
  by (relation "measure (\<lambda>x. case x of
          Inl (g, i, j) \<Rightarrow> (81 - rank i j) * 12 + 11
        | Inr (g, i, j, guess) \<Rightarrow> (81 - rank i j) * 12 + nat (10 - guess))")
     (auto dest!: next_location_rank)

declare solve.simps [simp del] guess_loop.simps [simp del]

section \<open>The search with a log of its writes\<close>

text \<open>
  The same two functions, returning in addition the list of the grid states the run goes
  through: one entry, in order, for every write to \<^verbatim>\<open>self._puzzle[i][j]\<close>, the
  assignment of a guess or the reset to zero after the loop. The states of a run from
  \<open>g\<close> are \<open>g\<close> itself and the entries of the log; a run that raises keeps the log
  up to the failing read.
\<close>

function solve_log :: "grid \<Rightarrow> nat \<Rightarrow> nat \<Rightarrow> grid list \<times> (error + (bool \<times> grid))"
  and guess_loop_log :: "grid \<Rightarrow> nat \<Rightarrow> nat \<Rightarrow> int \<Rightarrow> grid list \<times> (error + (bool \<times> grid))" where
  "solve_log g i j =
     (case cell g i j of
        Inl e \<Rightarrow> ([], Inl e)
      | Inr v \<Rightarrow>
          if v \<noteq> 0 then
            (case next_location i j of
               None \<Rightarrow> ([], Inr (True, g))
             | Some (next_i, next_j) \<Rightarrow> solve_log g next_i next_j)
          else guess_loop_log g i j 1)"
| "guess_loop_log g i j guess =
     (if guess < 10 then
        (case is_valid_guess g i j guess of
           Inl e \<Rightarrow> ([], Inl e)
         | Inr False \<Rightarrow> guess_loop_log g i j (guess + 1)
         | Inr True \<Rightarrow>
             (case set_cell g i j guess of
                Inl e \<Rightarrow> ([], Inl e)
              | Inr g1 \<Rightarrow>
                  (case next_location i j of
                     None \<Rightarrow> ([g1], Inr (True, g1))
                   | Some (next_i, next_j) \<Rightarrow>
                       (case solve_log g1 next_i next_j of
                          (log, Inl e) \<Rightarrow> (g1 # log, Inl e)
                        | (log, Inr (True, g2)) \<Rightarrow> (g1 # log, Inr (True, g2))
                        | (log, Inr (False, g2)) \<Rightarrow>
                            (case guess_loop_log g2 i j (guess + 1) of
                               (log', r) \<Rightarrow> (g1 # log @ log', r))))))
      else
        (case set_cell g i j 0 of
           Inl e \<Rightarrow> ([], Inl e)
         | Inr g' \<Rightarrow> ([g'], Inr (False, g'))))"
  by pat_completeness auto
termination
  by (relation "measure (\<lambda>x. case x of
          Inl (g, i, j) \<Rightarrow> (81 - rank i j) * 12 + 11
        | Inr (g, i, j, guess) \<Rightarrow> (81 - rank i j) * 12 + nat (10 - guess))")
     (auto dest!: next_location_rank)

declare solve_log.simps [simp del] guess_loop_log.simps [simp del]

section \<open>Vocabulary of the properties\<close>

text \<open>
  The spec's Grid is a 9 by 9 matrix; \<open>shape9\<close> says that a list of rows is one, and
  \<open>cells_in_range\<close> that its cells lie between 0 and 9. On such a grid no read or write
  of the search is out of range, and \<open>upd\<close> is the grid after the write of one cell.
\<close>

definition shape9 :: "grid \<Rightarrow> bool" where
  "shape9 g = (length g = 9 \<and> (\<forall>row\<in>set g. length row = 9))"

definition cells_in_range :: "grid \<Rightarrow> bool" where
  "cells_in_range g = (\<forall>row\<in>set g. \<forall>v\<in>set row. 0 \<le> v \<and> v \<le> 9)"

definition upd :: "grid \<Rightarrow> nat \<Rightarrow> nat \<Rightarrow> int \<Rightarrow> grid" where
  "upd g i j v = g[i := (g ! i)[j := v]]"

definition full :: "grid \<Rightarrow> bool" where
  "full g = (\<forall>row\<in>set g. \<forall>v\<in>set row. v \<noteq> 0)"

text \<open>
  The value \<^verbatim>\<open>int\<close> gives for a digit character.
\<close>

definition digit_value :: "char \<Rightarrow> int" where
  "digit_value c = of_char c - 48"

text \<open>
  The 27 units of the board (nine rows, nine columns, nine boxes), each as the list of its
  positions, and the values a grid holds along a list of positions. \<open>no_duplicates\<close>
  is the spec's invariant (no non-zero value twice in a unit), \<open>solved\<close> the
  property of a solution (each unit holds exactly the values 1 to 9, none twice), and
  \<open>extends g h\<close> says that \<open>h\<close> keeps every non-zero cell of \<open>g\<close>.
\<close>

definition vals :: "grid \<Rightarrow> (nat \<times> nat) list \<Rightarrow> int list" where
  "vals g ps = map (\<lambda>(r, c). g ! r ! c) ps"

definition units :: "(nat \<times> nat) list list" where
  "units = map row_cells [0..<9] @ map col_cells [0..<9]
         @ concat (map (\<lambda>a. map (\<lambda>b. box_cells (3 * a) (3 * b)) [0..<3]) [0..<3])"

definition no_duplicates :: "grid \<Rightarrow> bool" where
  "no_duplicates g = (\<forall>u\<in>set units. distinct (filter (\<lambda>v. v \<noteq> 0) (vals g u)))"

definition solved :: "grid \<Rightarrow> bool" where
  "solved g = (\<forall>u\<in>set units. distinct (vals g u) \<and> set (vals g u) = {1..9})"

definition extends :: "grid \<Rightarrow> grid \<Rightarrow> bool" where
  "extends g h = (\<forall>r\<in>set [0..<9]. \<forall>c\<in>set [0..<9]. g ! r ! c \<noteq> 0 \<longrightarrow> h ! r ! c = g ! r ! c)"

text \<open>
  Two positions are peers when they share a row, a column or a box; \<open>consistent\<close> is
  the invariant stated cell by cell, and \<open>filled_from g n\<close> says that every cell from
  row-major index \<open>n\<close> on is non-zero.
\<close>

definition peer :: "nat \<Rightarrow> nat \<Rightarrow> nat \<Rightarrow> nat \<Rightarrow> bool" where
  "peer r1 c1 r2 c2 = (r1 = r2 \<or> c1 = c2 \<or> (r1 div 3 = r2 div 3 \<and> c1 div 3 = c2 div 3))"

definition consistent :: "grid \<Rightarrow> bool" where
  "consistent g = (\<forall>r1<9. \<forall>c1<9. \<forall>r2<9. \<forall>c2<9. (r1, c1) \<noteq> (r2, c2) \<longrightarrow>
      peer r1 c1 r2 c2 \<longrightarrow> g ! r1 ! c1 \<noteq> 0 \<longrightarrow> g ! r1 ! c1 \<noteq> g ! r2 ! c2)"

definition filled_from :: "grid \<Rightarrow> nat \<Rightarrow> bool" where
  "filled_from g n = (\<forall>r<9. \<forall>c<9. n \<le> 9 * r + c \<longrightarrow> g ! r ! c \<noteq> 0)"

text \<open>
  The spec orders positions row-major: \<open>(r1, c1) < (r2, c2)\<close> iff \<open>r1 < r2\<close>, or
  \<open>r1 = r2\<close> and \<open>c1 < c2\<close>. A depth-first search that visits the cells in that order
  and tries the candidates in ascending order reaches a grid \<open>g\<close> before a grid \<open>h\<close>
  when, at the first position where they differ, \<open>g\<close> holds the smaller value: that is
  \<open>found_before g h\<close>. \<open>precedes\<close> is the same with the position given by its row-major
  index, and \<open>filled_before g n\<close> says that every cell before index \<open>n\<close> is non-zero.
\<close>

definition row_major_less :: "nat \<times> nat \<Rightarrow> nat \<times> nat \<Rightarrow> bool" where
  "row_major_less p q = (fst p < fst q \<or> (fst p = fst q \<and> snd p < snd q))"

definition found_before :: "grid \<Rightarrow> grid \<Rightarrow> bool" where
  "found_before g h =
     (\<exists>r\<in>set [0..<9]. \<exists>c\<in>set [0..<9]. g ! r ! c < h ! r ! c
        \<and> (\<forall>r'\<in>set [0..<9]. \<forall>c'\<in>set [0..<9].
              row_major_less (r', c') (r, c) \<longrightarrow> g ! r' ! c' = h ! r' ! c'))"

definition precedes :: "grid \<Rightarrow> grid \<Rightarrow> bool" where
  "precedes g h =
     (\<exists>r<9. \<exists>c<9. g ! r ! c < h ! r ! c
        \<and> (\<forall>r'<9. \<forall>c'<9. 9 * r' + c' < 9 * r + c \<longrightarrow> g ! r' ! c' = h ! r' ! c'))"

definition filled_before :: "grid \<Rightarrow> nat \<Rightarrow> bool" where
  "filled_before g n = (\<forall>r<9. \<forall>c<9. 9 * r + c < n \<longrightarrow> g ! r ! c \<noteq> 0)"

section \<open>Example grids\<close>

text \<open>
  A solved grid, the same grid with four cells blanked so that two solutions remain, the
  solution the search reaches first, a grid on which the search fails at the last cell, and
  a full grid that breaks every constraint.
  \<open>retry_example\<close> is a grid on which the guess 1 at \<open>(8, 7)\<close> is legal and the
  search then fails at \<open>(8, 8)\<close>; \<open>retry_after\<close> is that grid with the guess written,
  \<open>retry_nine\<close> the grid once the next legal guess, 9, has overwritten it, and
  \<open>retry_done\<close> the grid the loop then returns. \<open>dead_end_example\<close> has a 9 in column 7
  as well, so that after the failure of the guess 1 no candidate is left at \<open>(8, 7)\<close>;
  \<open>dead_end_after\<close> is that grid with the guess 1 written.
\<close>

definition solution_example :: grid where
  "solution_example =
    [[5, 3, 4, 6, 7, 8, 9, 1, 2],
     [6, 7, 2, 1, 9, 5, 3, 4, 8],
     [1, 9, 8, 3, 4, 2, 5, 6, 7],
     [8, 5, 9, 7, 6, 1, 4, 2, 3],
     [4, 2, 6, 8, 5, 3, 7, 9, 1],
     [7, 1, 3, 9, 2, 4, 8, 5, 6],
     [9, 6, 1, 5, 3, 7, 2, 8, 4],
     [2, 8, 7, 4, 1, 9, 6, 3, 5],
     [3, 4, 5, 2, 8, 6, 1, 7, 9]]"

definition two_solutions_example :: grid where
  "two_solutions_example =
    [[5, 3, 4, 6, 7, 8, 9, 1, 2],
     [6, 7, 2, 1, 9, 5, 3, 4, 8],
     [1, 9, 8, 3, 4, 2, 5, 6, 7],
     [8, 5, 9, 7, 6, 1, 4, 2, 3],
     [4, 2, 6, 8, 5, 3, 7, 9, 1],
     [7, 1, 3, 9, 2, 4, 8, 5, 6],
     [9, 6, 1, 0, 3, 7, 2, 8, 0],
     [2, 8, 7, 0, 1, 9, 6, 3, 0],
     [3, 4, 5, 2, 8, 6, 1, 7, 9]]"

definition first_found_example :: grid where
  "first_found_example =
    [[5, 3, 4, 6, 7, 8, 9, 1, 2],
     [6, 7, 2, 1, 9, 5, 3, 4, 8],
     [1, 9, 8, 3, 4, 2, 5, 6, 7],
     [8, 5, 9, 7, 6, 1, 4, 2, 3],
     [4, 2, 6, 8, 5, 3, 7, 9, 1],
     [7, 1, 3, 9, 2, 4, 8, 5, 6],
     [9, 6, 1, 4, 3, 7, 2, 8, 5],
     [2, 8, 7, 5, 1, 9, 6, 3, 4],
     [3, 4, 5, 2, 8, 6, 1, 7, 9]]"

definition stuck_example :: grid where
  "stuck_example =
    [[1, 1, 1, 1, 1, 1, 1, 1, 1],
     [1, 1, 1, 1, 1, 1, 1, 1, 1],
     [1, 1, 1, 1, 1, 1, 1, 1, 1],
     [1, 1, 1, 1, 1, 1, 1, 1, 1],
     [1, 1, 1, 1, 1, 1, 1, 1, 1],
     [1, 1, 1, 1, 1, 1, 1, 1, 1],
     [1, 1, 1, 1, 1, 1, 1, 1, 1],
     [1, 1, 1, 1, 1, 1, 1, 1, 9],
     [1, 2, 3, 4, 5, 6, 7, 8, 0]]"

definition all_ones :: grid where
  "all_ones = replicate 9 (replicate 9 1)"

definition retry_example :: grid where
  "retry_example =
    [[0, 0, 0, 0, 0, 0, 0, 0, 9],
     [0, 0, 0, 0, 0, 0, 0, 0, 0],
     [0, 0, 0, 0, 0, 0, 0, 0, 0],
     [0, 0, 0, 0, 0, 0, 0, 0, 0],
     [0, 0, 0, 0, 0, 0, 0, 0, 0],
     [0, 0, 0, 0, 0, 0, 0, 0, 0],
     [0, 0, 0, 0, 0, 0, 0, 0, 0],
     [0, 0, 0, 0, 0, 0, 0, 0, 0],
     [2, 3, 4, 5, 6, 7, 8, 0, 0]]"

definition retry_after :: grid where
  "retry_after =
    [[0, 0, 0, 0, 0, 0, 0, 0, 9],
     [0, 0, 0, 0, 0, 0, 0, 0, 0],
     [0, 0, 0, 0, 0, 0, 0, 0, 0],
     [0, 0, 0, 0, 0, 0, 0, 0, 0],
     [0, 0, 0, 0, 0, 0, 0, 0, 0],
     [0, 0, 0, 0, 0, 0, 0, 0, 0],
     [0, 0, 0, 0, 0, 0, 0, 0, 0],
     [0, 0, 0, 0, 0, 0, 0, 0, 0],
     [2, 3, 4, 5, 6, 7, 8, 1, 0]]"

definition retry_nine :: grid where
  "retry_nine =
    [[0, 0, 0, 0, 0, 0, 0, 0, 9],
     [0, 0, 0, 0, 0, 0, 0, 0, 0],
     [0, 0, 0, 0, 0, 0, 0, 0, 0],
     [0, 0, 0, 0, 0, 0, 0, 0, 0],
     [0, 0, 0, 0, 0, 0, 0, 0, 0],
     [0, 0, 0, 0, 0, 0, 0, 0, 0],
     [0, 0, 0, 0, 0, 0, 0, 0, 0],
     [0, 0, 0, 0, 0, 0, 0, 0, 0],
     [2, 3, 4, 5, 6, 7, 8, 9, 0]]"

definition retry_done :: grid where
  "retry_done =
    [[0, 0, 0, 0, 0, 0, 0, 0, 9],
     [0, 0, 0, 0, 0, 0, 0, 0, 0],
     [0, 0, 0, 0, 0, 0, 0, 0, 0],
     [0, 0, 0, 0, 0, 0, 0, 0, 0],
     [0, 0, 0, 0, 0, 0, 0, 0, 0],
     [0, 0, 0, 0, 0, 0, 0, 0, 0],
     [0, 0, 0, 0, 0, 0, 0, 0, 0],
     [0, 0, 0, 0, 0, 0, 0, 0, 0],
     [2, 3, 4, 5, 6, 7, 8, 9, 1]]"

definition dead_end_example :: grid where
  "dead_end_example =
    [[0, 0, 0, 0, 0, 0, 0, 0, 9],
     [0, 0, 0, 0, 0, 0, 0, 0, 0],
     [0, 0, 0, 0, 0, 0, 0, 0, 0],
     [0, 0, 0, 0, 0, 0, 0, 9, 0],
     [0, 0, 0, 0, 0, 0, 0, 0, 0],
     [0, 0, 0, 0, 0, 0, 0, 0, 0],
     [0, 0, 0, 0, 0, 0, 0, 0, 0],
     [0, 0, 0, 0, 0, 0, 0, 0, 0],
     [2, 3, 4, 5, 6, 7, 8, 0, 0]]"

definition dead_end_after :: grid where
  "dead_end_after =
    [[0, 0, 0, 0, 0, 0, 0, 0, 9],
     [0, 0, 0, 0, 0, 0, 0, 0, 0],
     [0, 0, 0, 0, 0, 0, 0, 0, 0],
     [0, 0, 0, 0, 0, 0, 0, 9, 0],
     [0, 0, 0, 0, 0, 0, 0, 0, 0],
     [0, 0, 0, 0, 0, 0, 0, 0, 0],
     [0, 0, 0, 0, 0, 0, 0, 0, 0],
     [0, 0, 0, 0, 0, 0, 0, 0, 0],
     [2, 3, 4, 5, 6, 7, 8, 1, 0]]"

section \<open>Auxiliary facts\<close>

lemma shape9_nth: "shape9 g \<Longrightarrow> r < 9 \<Longrightarrow> length (g ! r) = 9"
  by (simp add: shape9_def)

lemma shape9_length: "shape9 g \<Longrightarrow> length g = 9"
  by (simp add: shape9_def)

lemma cell_shape9: "shape9 g \<Longrightarrow> i < 9 \<Longrightarrow> j < 9 \<Longrightarrow> cell g i j = Inr (g ! i ! j)"
  by (simp add: cell_def shape9_def)

lemma set_cell_shape9:
  "shape9 g \<Longrightarrow> i < 9 \<Longrightarrow> j < 9 \<Longrightarrow> set_cell g i j v = Inr (upd g i j v)"
  by (simp add: set_cell_def upd_def shape9_def)

lemma shape9_upd: "shape9 g \<Longrightarrow> shape9 (upd g i j v)"
proof (cases "i < length g")
  case True
  assume g: "shape9 g"
  have "set (upd g i j v) \<subseteq> insert ((g ! i)[j := v]) (set g)"
    unfolding upd_def by (rule set_update_subset_insert)
  moreover have "length ((g ! i)[j := v]) = 9" using g True by (simp add: shape9_def)
  ultimately show ?thesis using g by (auto simp: shape9_def upd_def)
next
  case False
  then show "shape9 g \<Longrightarrow> shape9 (upd g i j v)" by (simp add: upd_def list_update_beyond)
qed

lemma at_upd:
  "shape9 g \<Longrightarrow> i < 9 \<Longrightarrow> j < 9 \<Longrightarrow> r < 9 \<Longrightarrow> c < 9 \<Longrightarrow>
   upd g i j v ! r ! c = (if r = i \<and> c = j then v else g ! r ! c)"
  by (simp add: upd_def shape9_def nth_list_update)

lemma grid_eqI:
  assumes "shape9 g" "shape9 h" "\<And>r c. r < 9 \<Longrightarrow> c < 9 \<Longrightarrow> g ! r ! c = h ! r ! c"
  shows "g = h"
proof (rule nth_equalityI)
  show "length g = length h" using assms by (simp add: shape9_def)
next
  fix r assume "r < length g"
  then have r: "r < 9" using assms(1) by (simp add: shape9_def)
  show "g ! r = h ! r"
  proof (rule nth_equalityI)
    show "length (g ! r) = length (h ! r)" using assms r by (simp add: shape9_def)
  next
    fix c assume "c < length (g ! r)"
    then have "c < 9" using assms(1) r by (simp add: shape9_def)
    then show "g ! r ! c = h ! r ! c" using assms(3) r by simp
  qed
qed

lemma next_location_cases:
  assumes "i < 9" "j < 9"
  shows "next_location i j =
     (if j < 8 then Some (i, j + 1) else if i < 8 then Some (i + 1, 0) else None)"
proof -
  have "j < 8 \<or> j = 8" using assms by linarith
  moreover have "i < 8 \<or> i = 8" using assms by linarith
  ultimately show ?thesis
    unfolding next_location_def Let_def by (auto simp: mod_Suc)
qed

lemma scan_shape9:
  assumes "shape9 g" "\<forall>p\<in>set ps. fst p < 9 \<and> snd p < 9"
  shows "scan g ps v = Inr (\<exists>p\<in>set ps. g ! fst p ! snd p = v)"
  using assms(2)
proof (induction ps)
  case Nil
  then show ?case by simp
next
  case (Cons p ps)
  obtain r c where p: "p = (r, c)" by (cases p)
  with Cons.prems have "r < 9" "c < 9" by auto
  then have "cell g r c = Inr (g ! r ! c)" using assms(1) by (simp add: cell_shape9)
  then show ?case using Cons p by auto
qed

lemma set_row_cells: "set (row_cells i) = {(r, c). r = i \<and> c < 9}"
  by (auto simp: row_cells_def)

lemma set_col_cells: "set (col_cells j) = {(r, c). c = j \<and> r < 9}"
  by (auto simp: col_cells_def)

lemma set_box_cells:
  "set (box_cells x y) = {(r, c). x \<le> r \<and> r < x + 3 \<and> y \<le> c \<and> c < y + 3}"
  by (auto simp: box_cells_def)

lemma div3_less: "x < 9 \<Longrightarrow> x div 3 < (3::nat)"
  by (simp add: div_less_iff_less_mult)

lemma less9_div3: "r div 3 < 3 \<Longrightarrow> r < (9::nat)"
  by (simp add: div_less_iff_less_mult)

lemma box_bounds: "3 * (r div 3) \<le> r \<and> r < 3 * (r div 3) + (3::nat)"
  using div_mult_mod_eq [of r 3] mod_less_divisor [of 3 r] by linarith

lemma box_range: "((x div 3) * 3 \<le> r \<and> r < (x div 3) * 3 + 3) = (r div 3 = x div (3::nat))"
proof
  assume a: "(x div 3) * 3 \<le> r \<and> r < (x div 3) * 3 + 3"
  then have "x div 3 \<le> r div 3" by (metis div_le_mono div_mult_self_is_m zero_less_numeral)
  moreover have "r div 3 < x div 3 + 1" using a by (simp add: div_less_iff_less_mult)
  ultimately show "r div 3 = x div 3" by simp
next
  assume e: "r div 3 = x div 3"
  show "(x div 3) * 3 \<le> r \<and> r < (x div 3) * 3 + 3" using box_bounds [of r] e by simp
qed

lemma box_start: "i < 9 \<Longrightarrow> (i div 3) * 3 + 3 \<le> (9::nat)"
  using div3_less [of i] by linarith

lemma is_valid_guess_shape9:
  assumes "shape9 g" "i < 9" "j < 9"
  shows "is_valid_guess g i j v =
     Inr ((\<forall>c<9. g ! i ! c \<noteq> v) \<and> (\<forall>r<9. g ! r ! j \<noteq> v)
        \<and> (\<forall>r c. (i div 3) * 3 \<le> r \<and> r < (i div 3) * 3 + 3
               \<and> (j div 3) * 3 \<le> c \<and> c < (j div 3) * 3 + 3 \<longrightarrow> g ! r ! c \<noteq> v))"
proof -
  have bi: "(i div 3) * 3 + 3 \<le> 9" and bj: "(j div 3) * 3 + 3 \<le> 9"
    using assms by (simp_all add: box_start)
  have r: "scan g (row_cells i) v = Inr (\<exists>p\<in>set (row_cells i). g ! fst p ! snd p = v)"
    by (rule scan_shape9) (use assms in \<open>auto simp: set_row_cells\<close>)
  have c: "scan g (col_cells j) v = Inr (\<exists>p\<in>set (col_cells j). g ! fst p ! snd p = v)"
    by (rule scan_shape9) (use assms in \<open>auto simp: set_col_cells\<close>)
  have b: "scan g (box_cells ((i div 3) * 3) ((j div 3) * 3)) v =
       Inr (\<exists>p\<in>set (box_cells ((i div 3) * 3) ((j div 3) * 3)). g ! fst p ! snd p = v)"
    by (rule scan_shape9) (use assms bi bj in \<open>auto simp: set_box_cells\<close>)
  show ?thesis
    unfolding is_valid_guess_def r c b
    by (auto simp: set_row_cells set_col_cells set_box_cells split: bool.splits)
qed

lemma solve_cases:
  assumes "solve g i j = Inr res"
  obtains (last) v where "cell g i j = Inr v" "v \<noteq> 0" "next_location i j = None"
      "res = (True, g)"
  | (advance) v ni nj where "cell g i j = Inr v" "v \<noteq> 0" "next_location i j = Some (ni, nj)"
      "solve g ni nj = Inr res"
  | (empty) "cell g i j = Inr 0" "guess_loop g i j 1 = Inr res"
  using assms
  by (subst (asm) solve.simps) (auto split: sum.splits if_splits option.splits)

lemma guess_loop_cases:
  assumes "guess_loop g i j guess = Inr res"
  obtains (exhausted) g' where "\<not> guess < 10" "set_cell g i j 0 = Inr g'" "res = (False, g')"
  | (illegal) "guess < 10" "is_valid_guess g i j guess = Inr False"
      "guess_loop g i j (guess + 1) = Inr res"
  | (last) g1 where "guess < 10" "is_valid_guess g i j guess = Inr True"
      "set_cell g i j guess = Inr g1" "next_location i j = None" "res = (True, g1)"
  | (success) g1 ni nj g2 where "guess < 10" "is_valid_guess g i j guess = Inr True"
      "set_cell g i j guess = Inr g1" "next_location i j = Some (ni, nj)"
      "solve g1 ni nj = Inr (True, g2)" "res = (True, g2)"
  | (retry) g1 ni nj g2 where "guess < 10" "is_valid_guess g i j guess = Inr True"
      "set_cell g i j guess = Inr g1" "next_location i j = Some (ni, nj)"
      "solve g1 ni nj = Inr (False, g2)" "guess_loop g2 i j (guess + 1) = Inr res"
  using assms
  by (subst (asm) guess_loop.simps)
     (auto split: sum.splits if_splits option.splits bool.splits prod.splits)

lemma set_cell_twice:
  "set_cell g i j v = Inr g1 \<Longrightarrow> set_cell g1 i j w = set_cell g i j w"
  by (auto simp: set_cell_def split: if_splits)

lemma set_cell_same: "cell g i j = Inr v \<Longrightarrow> set_cell g i j v = Inr g"
  by (auto simp: set_cell_def cell_def split: if_splits)

lemma cell_set_cell_other:
  "set_cell g i j w = Inr g1 \<Longrightarrow> (r, c) \<noteq> (i, j) \<Longrightarrow> cell g1 r c = cell g r c"
  by (auto simp: set_cell_def cell_def nth_list_update split: if_splits)

lemma cell_set_cell_same:
  "set_cell g i j w = Inr g1 \<Longrightarrow> cell g1 i j = Inr w"
  by (auto simp: set_cell_def cell_def nth_list_update split: if_splits)

lemma failure_restores:
  "\<forall>g'. solve g i j = Inr (False, g') \<longrightarrow> g' = g"
  "\<forall>g'. guess_loop g i j guess = Inr (False, g') \<longrightarrow> set_cell g i j 0 = Inr g'"
proof (induction g i j and g i j guess rule: solve_guess_loop.induct)
  case (1 g i j)
  show ?case
  proof (intro allI impI)
    fix g' assume run: "solve g i j = Inr (False, g')"
    from run show "g' = g"
    proof (cases rule: solve_cases)
      case (last v)
      then show ?thesis by simp
    next
      case (advance v ni nj)
      then show ?thesis using "1.IH"(1) by blast
    next
      case empty
      then have "set_cell g i j 0 = Inr g'" using "1.IH"(2) by blast
      moreover have "set_cell g i j 0 = Inr g" using empty(1) by (rule set_cell_same)
      ultimately show ?thesis by simp
    qed
  qed
next
  case (2 g i j guess)
  show ?case
  proof (intro allI impI)
    fix g' assume run: "guess_loop g i j guess = Inr (False, g')"
    from run show "set_cell g i j 0 = Inr g'"
    proof (cases rule: guess_loop_cases)
      case (exhausted g'')
      then show ?thesis by simp
    next
      case illegal
      then show ?thesis using "2.IH"(3) by blast
    next
      case (last g1)
      then show ?thesis by simp
    next
      case (success g1 ni nj g2)
      then show ?thesis by simp
    next
      case (retry g1 ni nj g2)
      have "g2 = g1" using "2.IH"(1) retry by blast
      moreover have "set_cell g2 i j 0 = Inr g'" using "2.IH"(2) retry by blast
      ultimately show ?thesis using set_cell_twice [OF retry(3)] by simp
    qed
  qed
qed

lemma solve_frame:
  "\<forall>b g' r c v. solve g i j = Inr (b, g') \<longrightarrow> cell g r c = Inr v \<longrightarrow> v \<noteq> 0
      \<longrightarrow> cell g' r c = Inr v"
  "\<forall>b g' r c v. guess_loop g i j guess = Inr (b, g') \<longrightarrow> cell g r c = Inr v \<longrightarrow> v \<noteq> 0
      \<longrightarrow> (r, c) \<noteq> (i, j) \<longrightarrow> cell g' r c = Inr v"
proof (induction g i j and g i j guess rule: solve_guess_loop.induct)
  case (1 g i j)
  show ?case
  proof (intro allI impI)
    fix b g' r c v
    assume run: "solve g i j = Inr (b, g')" and c: "cell g r c = Inr v" "v \<noteq> 0"
    from run show "cell g' r c = Inr v"
    proof (cases rule: solve_cases)
      case (last w)
      then show ?thesis using c by simp
    next
      case (advance w ni nj)
      then show ?thesis using "1.IH"(1) c by blast
    next
      case empty
      then have "(r, c) \<noteq> (i, j)" using c by auto
      then show ?thesis using "1.IH"(2) empty c by blast
    qed
  qed
next
  case (2 g i j guess)
  show ?case
  proof (intro allI impI)
    fix b g' r c v
    assume run: "guess_loop g i j guess = Inr (b, g')" and c: "cell g r c = Inr v" "v \<noteq> 0"
      and ne: "(r, c) \<noteq> (i, j)"
    from run show "cell g' r c = Inr v"
    proof (cases rule: guess_loop_cases)
      case (exhausted g'')
      then show ?thesis using cell_set_cell_other [OF exhausted(2) ne] c by simp
    next
      case illegal
      then show ?thesis using "2.IH"(3) c ne by blast
    next
      case (last g1)
      then show ?thesis using cell_set_cell_other [OF last(3) ne] c by simp
    next
      case (success g1 ni nj g2)
      have "cell g1 r c = Inr v" using cell_set_cell_other [OF success(3) ne] c by simp
      then show ?thesis using "2.IH"(1) success c by blast
    next
      case (retry g1 ni nj g2)
      have "cell g1 r c = Inr v" using cell_set_cell_other [OF retry(3) ne] c by simp
      then have "cell g2 r c = Inr v" using "2.IH"(1) retry c by blast
      then show ?thesis using "2.IH"(2) retry c ne by blast
    qed
  qed
qed

lemma next_location_bound:
  "i < 9 \<Longrightarrow> j < 9 \<Longrightarrow> next_location i j = Some (ni, nj) \<Longrightarrow>
   ni < 9 \<and> nj < 9 \<and> 9 * ni + nj = Suc (9 * i + j)"
  by (auto simp: next_location_cases split: if_splits)

lemma next_location_last:
  "i < 9 \<Longrightarrow> j < 9 \<Longrightarrow> next_location i j = None \<Longrightarrow> i = 8 \<and> j = 8"
  by (auto simp: next_location_cases split: if_splits)

lemma full_nth:
  assumes "full g" "shape9 g" "r < 9" "c < 9"
  shows "g ! r ! c \<noteq> 0"
proof -
  have "g ! r \<in> set g" using assms by (simp add: shape9_def)
  moreover have "g ! r ! c \<in> set (g ! r)" using assms by (simp add: shape9_def)
  ultimately show ?thesis using assms(1) unfolding full_def by blast
qed

lemma solve_full:
  assumes "shape9 g" "full g"
  shows "i < 9 \<Longrightarrow> j < 9 \<Longrightarrow> solve g i j = Inr (True, g)"
proof (induction "80 - (9 * i + j)" arbitrary: i j rule: less_induct)
  case less
  have c: "cell g i j = Inr (g ! i ! j)" using assms less.prems by (simp add: cell_shape9)
  have nz: "g ! i ! j \<noteq> 0" using assms less.prems by (simp add: full_nth)
  show ?case
  proof (cases "next_location i j")
    case None
    then show ?thesis using c nz by (simp add: solve.simps)
  next
    case (Some p)
    obtain ni nj where p: "p = (ni, nj)" by (cases p)
    have n: "ni < 9 \<and> nj < 9 \<and> 9 * ni + nj = Suc (9 * i + j)"
      using next_location_bound [OF less.prems] Some p by blast
    then have "9 * ni + nj \<le> 80" by linarith
    then have "80 - (9 * ni + nj) < 80 - (9 * i + j)" using n by linarith
    then have "solve g ni nj = Inr (True, g)" using less.hyps n by blast
    then show ?thesis using c nz Some p by (simp add: solve.simps)
  qed
qed

lemma solve_total:
  "shape9 g \<and> i < 9 \<and> j < 9 \<longrightarrow> (\<exists>b g'. solve g i j = Inr (b, g') \<and> shape9 g')"
  "shape9 g \<and> i < 9 \<and> j < 9 \<longrightarrow> (\<exists>b g'. guess_loop g i j guess = Inr (b, g') \<and> shape9 g')"
proof (induction g i j and g i j guess rule: solve_guess_loop.induct)
  case (1 g i j)
  show ?case
  proof (intro impI, elim conjE)
    assume g: "shape9 g" and ij: "i < 9" "j < 9"
    have c: "cell g i j = Inr (g ! i ! j)" using g ij by (simp add: cell_shape9)
    show "\<exists>b g'. solve g i j = Inr (b, g') \<and> shape9 g'"
    proof (cases "g ! i ! j = 0")
      case True
      then show ?thesis using "1.IH"(2) [OF c] g ij c by (auto simp: solve.simps)
    next
      case nz: False
      show ?thesis
      proof (cases "next_location i j")
        case None
        then show ?thesis using c nz g by (auto simp: solve.simps)
      next
        case (Some p)
        obtain ni nj where p: "p = (ni, nj)" by (cases p)
        have "ni < 9 \<and> nj < 9" using next_location_bound [OF ij] Some p by blast
        then have "\<exists>b g'. solve g ni nj = Inr (b, g') \<and> shape9 g'"
          using "1.IH"(1) [OF c nz Some p [symmetric]] g by simp
        then show ?thesis using c nz Some p by (auto simp: solve.simps)
      qed
    qed
  qed
next
  case (2 g i j guess)
  show ?case
  proof (intro impI, elim conjE)
    assume g: "shape9 g" and ij: "i < 9" "j < 9"
    obtain ok where v: "is_valid_guess g i j guess = Inr ok"
      using is_valid_guess_shape9 [OF g ij] by blast
    show "\<exists>b g'. guess_loop g i j guess = Inr (b, g') \<and> shape9 g'"
    proof (cases "guess < 10")
      case False
      then show ?thesis using g ij
        by (auto simp: guess_loop.simps set_cell_shape9 shape9_upd)
    next
      case lt: True
      show ?thesis
      proof (cases ok)
        case False
        then have okF: "ok = False" by simp
        show ?thesis using "2.IH"(3) [OF lt v okF] lt v okF g ij
          by (auto simp: guess_loop.simps)
      next
        case True
        then have okT: "ok = True" by simp
        let ?g1 = "upd g i j guess"
        have s: "set_cell g i j guess = Inr ?g1" using g ij by (simp add: set_cell_shape9)
        have g1: "shape9 ?g1" using g by (rule shape9_upd)
        show ?thesis
        proof (cases "next_location i j")
          case None
          then show ?thesis using lt v okT s g1 by (auto simp: guess_loop.simps)
        next
          case (Some p)
          obtain ni nj where p: "p = (ni, nj)" by (cases p)
          have n: "ni < 9 \<and> nj < 9" using next_location_bound [OF ij] Some p by blast
          obtain b g2 where r: "solve ?g1 ni nj = Inr (b, g2)" and g2: "shape9 g2"
            using "2.IH"(1) [OF lt v okT s Some p [symmetric]] g1 n by blast
          show ?thesis
          proof (cases b)
            case True
            then show ?thesis using lt v okT s Some p r g2 by (auto simp: guess_loop.simps)
          next
            case False
            then have bF: "b = False" by simp
            have "\<exists>b g'. guess_loop g2 i j (guess + 1) = Inr (b, g') \<and> shape9 g'"
              using "2.IH"(2) [OF lt v okT s Some p [symmetric] r refl bF] g2 ij by simp
            then show ?thesis using lt v okT s Some p r bF
              by (auto simp: guess_loop.simps)
          qed
        qed
      qed
    qed
  qed
qed

lemma peer_sym: "peer r1 c1 r2 c2 \<Longrightarrow> peer r2 c2 r1 c1"
  by (auto simp: peer_def)

lemma is_valid_guess_peer:
  assumes "shape9 g" "i < 9" "j < 9"
  shows "is_valid_guess g i j v = Inr (\<forall>r<9. \<forall>c<9. peer i j r c \<longrightarrow> g ! r ! c \<noteq> v)"
proof -
  let ?A = "\<forall>c<9. g ! i ! c \<noteq> v"
  let ?B = "\<forall>r<9. g ! r ! j \<noteq> v"
  let ?C = "\<forall>r c. (i div 3) * 3 \<le> r \<and> r < (i div 3) * 3 + 3
               \<and> (j div 3) * 3 \<le> c \<and> c < (j div 3) * 3 + 3 \<longrightarrow> g ! r ! c \<noteq> v"
  let ?D = "\<forall>r<9. \<forall>c<9. peer i j r c \<longrightarrow> g ! r ! c \<noteq> v"
  have "?A \<and> ?B \<and> ?C" if d: ?D
  proof (intro conjI allI impI)
    fix c :: nat assume "c < 9"
    then show "g ! i ! c \<noteq> v" using d assms(2) by (simp add: peer_def)
  next
    fix r :: nat assume "r < 9"
    then show "g ! r ! j \<noteq> v" using d assms(3) by (simp add: peer_def)
  next
    fix r c
    assume "(i div 3) * 3 \<le> r \<and> r < (i div 3) * 3 + 3
               \<and> (j div 3) * 3 \<le> c \<and> c < (j div 3) * 3 + 3"
    then have e: "r div 3 = i div 3" "c div 3 = j div 3"
      using box_range [of i r] box_range [of j c] by simp_all
    then have "r < 9" "c < 9" using assms(2,3) by (simp_all add: less9_div3 div3_less)
    moreover have "peer i j r c" using e by (simp add: peer_def)
    ultimately show "g ! r ! c \<noteq> v" using d by blast
  qed
  moreover have ?D if abc: "?A \<and> ?B \<and> ?C"
  proof (intro allI impI)
    fix r c :: nat assume rc: "r < 9" "c < 9" and p: "peer i j r c"
    consider "i = r" | "j = c" | "i div 3 = r div 3 \<and> j div 3 = c div 3"
      using p by (auto simp: peer_def)
    then show "g ! r ! c \<noteq> v"
    proof cases
      case 1
      then show ?thesis using abc rc by blast
    next
      case 2
      then show ?thesis using abc rc by blast
    next
      case 3
      then have "(i div 3) * 3 \<le> r \<and> r < (i div 3) * 3 + 3"
        "(j div 3) * 3 \<le> c \<and> c < (j div 3) * 3 + 3"
        using box_range [of i r] box_range [of j c] by simp_all
      then show ?thesis using abc by blast
    qed
  qed
  ultimately have "(?A \<and> ?B \<and> ?C) = ?D" by blast
  then show ?thesis using is_valid_guess_shape9 [OF assms, of v] by simp
qed

lemma unit_facts:
  "\<forall>u\<in>set units. distinct u \<and> length u = 9 \<and> (\<forall>p\<in>set u. fst p < 9 \<and> snd p < 9)
     \<and> (\<forall>p\<in>set u. \<forall>q\<in>set u. peer (fst p) (snd p) (fst q) (snd q))"
  by code_simp

lemma distinct_filter_map:
  "distinct ps \<Longrightarrow>
   distinct (filter (\<lambda>v. v \<noteq> (0::int)) (map f ps)) =
     (\<forall>p\<in>set ps. \<forall>q\<in>set ps. p \<noteq> q \<longrightarrow> f p \<noteq> 0 \<longrightarrow> f p \<noteq> f q)"
proof (induction ps)
  case Nil
  then show ?case by simp
next
  case (Cons a ps)
  then show ?case by (auto simp: image_iff)
qed

lemma peer_unit:
  assumes "r1 < 9" "c1 < 9" "r2 < 9" "c2 < 9" "peer r1 c1 r2 c2"
  shows "\<exists>u\<in>set units. (r1, c1) \<in> set u \<and> (r2, c2) \<in> set u"
proof -
  consider "r1 = r2" | "c1 = c2" | "r1 div 3 = r2 div 3 \<and> c1 div 3 = c2 div 3"
    using assms(5) by (auto simp: peer_def)
  then show ?thesis
  proof cases
    case 1
    have "row_cells r1 \<in> set units" using assms(1) by (simp add: units_def)
    moreover have "(r1, c1) \<in> set (row_cells r1)" "(r2, c2) \<in> set (row_cells r1)"
      using assms 1 by (simp_all add: set_row_cells)
    ultimately show ?thesis by blast
  next
    case 2
    have "col_cells c1 \<in> set units" using assms(2) by (simp add: units_def)
    moreover have "(r1, c1) \<in> set (col_cells c1)" "(r2, c2) \<in> set (col_cells c1)"
      using assms 2 by (simp_all add: set_col_cells)
    ultimately show ?thesis by blast
  next
    case 3
    let ?u = "box_cells (3 * (r1 div 3)) (3 * (c1 div 3))"
    have "r1 div 3 < 3" "c1 div 3 < 3" using assms(1,2) by (simp_all add: div3_less)
    then have "?u \<in> (\<Union>a\<in>{0..<3}. (\<lambda>b. box_cells (3 * a) (3 * b)) ` {0..<3})"
      by (intro UN_I [where a = "r1 div 3"] image_eqI [where x = "c1 div 3"]) simp_all
    then have u: "?u \<in> set units" by (simp add: units_def)
    have "3 * (r1 div 3) \<le> r1 \<and> r1 < 3 * (r1 div 3) + 3" by (rule box_bounds)
    moreover have "3 * (c1 div 3) \<le> c1 \<and> c1 < 3 * (c1 div 3) + 3" by (rule box_bounds)
    ultimately have m1: "(r1, c1) \<in> set ?u" by (simp add: set_box_cells)
    have "3 * (r1 div 3) \<le> r2 \<and> r2 < 3 * (r1 div 3) + 3"
      using 3 box_bounds [of r2] by simp
    moreover have "3 * (c1 div 3) \<le> c2 \<and> c2 < 3 * (c1 div 3) + 3"
      using 3 box_bounds [of c2] by simp
    ultimately have m2: "(r2, c2) \<in> set ?u" by (simp add: set_box_cells)
    show ?thesis using u m1 m2 by blast
  qed
qed

lemma no_duplicates_consistent: "no_duplicates g = consistent g"
proof
  assume nd: "no_duplicates g"
  show "consistent g"
    unfolding consistent_def
  proof (intro allI impI)
    fix r1 c1 r2 c2
    assume b: "r1 < (9::nat)" "c1 < (9::nat)" "r2 < (9::nat)" "c2 < (9::nat)"
      and ne: "(r1, c1) \<noteq> (r2, c2)" and p: "peer r1 c1 r2 c2" and nz: "g ! r1 ! c1 \<noteq> 0"
    obtain u where u: "u \<in> set units" "(r1, c1) \<in> set u" "(r2, c2) \<in> set u"
      using peer_unit [OF b p] by blast
    have "distinct u" using unit_facts u(1) by blast
    moreover have "distinct (filter (\<lambda>v. v \<noteq> 0) (map (\<lambda>(r, c). g ! r ! c) u))"
      using nd u(1) by (simp add: no_duplicates_def vals_def)
    ultimately have "\<forall>p\<in>set u. \<forall>q\<in>set u. p \<noteq> q \<longrightarrow> (\<lambda>(r, c). g ! r ! c) p \<noteq> 0
        \<longrightarrow> (\<lambda>(r, c). g ! r ! c) p \<noteq> (\<lambda>(r, c). g ! r ! c) q"
      by (simp add: distinct_filter_map)
    then show "g ! r1 ! c1 \<noteq> g ! r2 ! c2" using u(2,3) ne nz by fastforce
  qed
next
  assume c: "consistent g"
  show "no_duplicates g"
    unfolding no_duplicates_def vals_def
  proof
    fix u assume u: "u \<in> set units"
    have d: "distinct u" using unit_facts u by blast
    have "\<forall>p\<in>set u. \<forall>q\<in>set u. p \<noteq> q \<longrightarrow> (\<lambda>(r, c). g ! r ! c) p \<noteq> 0
        \<longrightarrow> (\<lambda>(r, c). g ! r ! c) p \<noteq> (\<lambda>(r, c). g ! r ! c) q"
    proof (intro ballI impI)
      fix p q assume pq: "p \<in> set u" "q \<in> set u" "p \<noteq> q"
        and nz: "(\<lambda>(r, c). g ! r ! c) p \<noteq> 0"
      obtain r1 c1 r2 c2 where e: "p = (r1, c1)" "q = (r2, c2)" by (cases p, cases q)
      have "r1 < 9 \<and> c1 < 9 \<and> r2 < 9 \<and> c2 < 9 \<and> peer r1 c1 r2 c2"
        using unit_facts u pq e by fastforce
      then show "(\<lambda>(r, c). g ! r ! c) p \<noteq> (\<lambda>(r, c). g ! r ! c) q"
        using c pq(3) nz e unfolding consistent_def by auto
    qed
    then show "distinct (filter (\<lambda>v. v \<noteq> 0) (map (\<lambda>(r, c). g ! r ! c) u))"
      using d by (simp add: distinct_filter_map)
  qed
qed

lemma consistent_upd_guess:
  assumes "shape9 g" "consistent g" "i < 9" "j < 9"
    and ok: "\<forall>r<9. \<forall>c<9. peer i j r c \<longrightarrow> g ! r ! c \<noteq> v"
  shows "consistent (upd g i j v)"
  unfolding consistent_def
proof (intro allI impI)
  fix r1 c1 r2 c2
  assume b: "r1 < (9::nat)" "c1 < (9::nat)" "r2 < (9::nat)" "c2 < (9::nat)"
    and ne: "(r1, c1) \<noteq> (r2, c2)" and p: "peer r1 c1 r2 c2"
    and nz: "upd g i j v ! r1 ! c1 \<noteq> 0"
  have u1: "upd g i j v ! r1 ! c1 = (if r1 = i \<and> c1 = j then v else g ! r1 ! c1)"
    using assms b by (simp add: at_upd)
  have u2: "upd g i j v ! r2 ! c2 = (if r2 = i \<and> c2 = j then v else g ! r2 ! c2)"
    using assms b by (simp add: at_upd)
  show "upd g i j v ! r1 ! c1 \<noteq> upd g i j v ! r2 ! c2"
  proof (cases "r1 = i \<and> c1 = j")
    case True
    then have "g ! r2 ! c2 \<noteq> v" using ok b p by blast
    then show ?thesis using True ne u1 u2 by auto
  next
    case False
    show ?thesis
    proof (cases "r2 = i \<and> c2 = j")
      case True
      then have "peer i j r1 c1" using p by (auto intro: peer_sym)
      then have "g ! r1 ! c1 \<noteq> v" using ok b by blast
      then show ?thesis using True False u1 u2 by auto
    next
      case F2: False
      have "g ! r1 ! c1 \<noteq> g ! r2 ! c2"
        using assms(2) b ne p nz False u1 unfolding consistent_def by auto
      then show ?thesis using False F2 u1 u2 by auto
    qed
  qed
qed

lemma consistent_upd_zero:
  assumes "shape9 g" "consistent g" "i < 9" "j < 9"
  shows "consistent (upd g i j 0)"
  unfolding consistent_def
proof (intro allI impI)
  fix r1 c1 r2 c2
  assume b: "r1 < (9::nat)" "c1 < (9::nat)" "r2 < (9::nat)" "c2 < (9::nat)"
    and ne: "(r1, c1) \<noteq> (r2, c2)" and p: "peer r1 c1 r2 c2"
    and nz: "upd g i j 0 ! r1 ! c1 \<noteq> 0"
  have u1: "upd g i j 0 ! r1 ! c1 = (if r1 = i \<and> c1 = j then 0 else g ! r1 ! c1)"
    using assms b by (simp add: at_upd)
  have u2: "upd g i j 0 ! r2 ! c2 = (if r2 = i \<and> c2 = j then 0 else g ! r2 ! c2)"
    using assms b by (simp add: at_upd)
  have n1: "\<not> (r1 = i \<and> c1 = j)" using nz u1 by auto
  show "upd g i j 0 ! r1 ! c1 \<noteq> upd g i j 0 ! r2 ! c2"
  proof (cases "r2 = i \<and> c2 = j")
    case True
    then show ?thesis using nz u2 by auto
  next
    case False
    have "g ! r1 ! c1 \<noteq> g ! r2 ! c2"
      using assms(2) b ne p nz n1 u1 unfolding consistent_def by auto
    then show ?thesis using False n1 u1 u2 by auto
  qed
qed

lemma cells_in_range_upd:
  assumes "cells_in_range g" "0 \<le> v" "v \<le> 9"
  shows "cells_in_range (upd g i j v)"
  unfolding cells_in_range_def
proof (intro ballI)
  fix row w assume r: "row \<in> set (upd g i j v)" and w: "w \<in> set row"
  have "row \<in> insert ((g ! i)[j := v]) (set g)"
    using r set_update_subset_insert [of g i] unfolding upd_def by blast
  then show "0 \<le> w \<and> w \<le> 9"
  proof
    assume e: "row = (g ! i)[j := v]"
    show ?thesis
    proof (cases "i < length g")
      case True
      then have "g ! i \<in> set g" by simp
      moreover have "w \<in> insert v (set (g ! i))"
        using w e set_update_subset_insert [of "g ! i" j] by blast
      ultimately show ?thesis using assms unfolding cells_in_range_def by blast
    next
      case False
      then have "upd g i j v = g" by (simp add: upd_def list_update_beyond)
      then show ?thesis using r w assms(1) unfolding cells_in_range_def by auto
    qed
  next
    assume "row \<in> set g"
    then show ?thesis using w assms(1) unfolding cells_in_range_def by blast
  qed
qed

lemma split_one: "split_string_interval (c # d) 1 = [c] # split_string_interval d 1"
  by (subst split_string_interval.simps) simp

lemma split_nil: "split_string_interval [] n = []"
  by (simp add: split_string_interval.simps)

lemma map_int_chars:
  "map_int (split_string_interval d 1) =
     (if \<forall>c\<in>set d. is_digit c then Inr (map digit_value d) else Inl ValueError)"
proof (induction d)
  case Nil
  then show ?case by (simp add: split_nil)
next
  case (Cons c d)
  then show ?case by (simp add: split_one int_of_str_def digit_value_def del: One_nat_def)
qed

lemma create_rows_result:
  "create_rows ds =
     (if \<forall>d\<in>set ds. \<forall>c\<in>set d. is_digit c then Inr (map (map digit_value) ds)
      else Inl ValueError)"
proof (induction ds)
  case Nil
  then show ?case by simp
next
  case (Cons d ds)
  then show ?case by (simp add: map_int_chars del: One_nat_def)
qed

lemma concat_split: "0 < n \<Longrightarrow> concat (split_string_interval s n) = s"
proof (induction s n rule: split_string_interval.induct)
  case (1 s n)
  show ?case
  proof (cases "s = []")
    case True
    then show ?thesis by (simp add: split_nil)
  next
    case False
    then have "concat (split_string_interval (drop n s) n) = drop n s"
      using 1 by simp
    then show ?thesis using False "1.prems"
      by (subst split_string_interval.simps) simp
  qed
qed

lemma set_split: "0 < n \<Longrightarrow> (\<Union>d\<in>set (split_string_interval s n). set d) = set s"
proof -
  assume "0 < n"
  then have "set (concat (split_string_interval s n)) = set s" by (simp add: concat_split)
  then show ?thesis by simp
qed

lemma position_unique:
  assumes "r < 9" "c < 9" "i < 9" "j < 9" "9 * r + c = 9 * i + (j::nat)"
  shows "r = i \<and> c = j"
proof -
  have "(9 * r + c) div 9 = r" "(9 * i + j) div 9 = i" using assms by simp_all
  then have "r = i" using assms(5) by simp
  then show ?thesis using assms(5) by simp
qed

lemma filled_from_step:
  assumes "filled_from g (Suc (9 * i + j))" "g ! i ! j \<noteq> 0" "i < 9" "j < 9"
  shows "filled_from g (9 * i + j)"
  unfolding filled_from_def
proof (intro allI impI)
  fix r c :: nat assume rc: "r < 9" "c < 9" and le: "9 * i + j \<le> 9 * r + c"
  show "g ! r ! c \<noteq> 0"
  proof (cases "9 * r + c = 9 * i + j")
    case True
    then have "r = i \<and> c = j" using position_unique rc assms(3,4) by blast
    then show ?thesis using assms(2) by simp
  next
    case False
    then have "Suc (9 * i + j) \<le> 9 * r + c" using le by simp
    then show ?thesis using assms(1) rc unfolding filled_from_def by blast
  qed
qed

lemma filled_from_last:
  assumes "g ! 8 ! 8 \<noteq> 0"
  shows "filled_from g (9 * 8 + 8)"
  unfolding filled_from_def
proof (intro allI impI)
  fix r c :: nat assume rc: "r < 9" "c < 9" and le: "9 * 8 + 8 \<le> 9 * r + c"
  then have "9 * r + c = 9 * 8 + 8" by linarith
  then have "r = 8 \<and> c = 8" by (intro position_unique rc) simp_all
  then show "g ! r ! c \<noteq> 0" using assms by simp
qed

lemma cell_value: "shape9 g \<Longrightarrow> i < 9 \<Longrightarrow> j < 9 \<Longrightarrow> cell g i j = Inr v \<Longrightarrow> g ! i ! j = v"
  by (simp add: cell_shape9)

lemma solve_sound:
  "shape9 g \<and> consistent g \<and> cells_in_range g \<and> i < 9 \<and> j < 9 \<longrightarrow>
     (\<forall>b g'. solve g i j = Inr (b, g') \<longrightarrow>
        shape9 g' \<and> consistent g' \<and> cells_in_range g' \<and> (b \<longrightarrow> filled_from g' (9 * i + j)))"
  "shape9 g \<and> consistent g \<and> cells_in_range g \<and> i < 9 \<and> j < 9 \<and> 1 \<le> guess \<longrightarrow>
     (\<forall>b g'. guess_loop g i j guess = Inr (b, g') \<longrightarrow>
        shape9 g' \<and> consistent g' \<and> cells_in_range g' \<and> (b \<longrightarrow> filled_from g' (9 * i + j)))"
proof (induction g i j and g i j guess rule: solve_guess_loop.induct)
  case (1 g i j)
  show ?case
  proof (intro impI allI, elim conjE)
    fix b g'
    assume g: "shape9 g" "consistent g" "cells_in_range g" and ij: "i < 9" "j < 9"
      and run: "solve g i j = Inr (b, g')"
    from run show "shape9 g' \<and> consistent g' \<and> cells_in_range g'
        \<and> (b \<longrightarrow> filled_from g' (9 * i + j))"
    proof (cases rule: solve_cases)
      case (last v)
      have "i = 8 \<and> j = 8" using next_location_last [OF ij last(3)] .
      moreover have "g ! i ! j \<noteq> 0" using cell_value [OF g(1) ij last(1)] last(2) by simp
      ultimately have "filled_from g (9 * i + j)" using filled_from_last [of g] by simp
      then show ?thesis using last g by simp
    next
      case (advance v ni nj)
      have n: "ni < 9 \<and> nj < 9 \<and> 9 * ni + nj = Suc (9 * i + j)"
        using next_location_bound [OF ij advance(3)] .
      have ih: "shape9 g' \<and> consistent g' \<and> cells_in_range g'
          \<and> (b \<longrightarrow> filled_from g' (9 * ni + nj))"
        using "1.IH"(1) [OF advance(1) advance(2) advance(3) refl] g n advance(4) by blast
      have "cell g' i j = Inr v" using solve_frame(1) run advance(1,2) by blast
      then have "g' ! i ! j \<noteq> 0" using cell_value [of g' i j v] ih ij advance(2) by simp
      then have "b \<longrightarrow> filled_from g' (9 * i + j)"
        using ih n ij filled_from_step [of g' i j] by simp
      then show ?thesis using ih by simp
    next
      case empty
      have "\<not> (0::int) \<noteq> 0" by simp
      from "1.IH"(2) [OF empty(1) this] g ij empty(2) show ?thesis by simp
    qed
  qed
next
  case (2 g i j guess)
  show ?case
  proof (intro impI allI, elim conjE)
    fix b g'
    assume g: "shape9 g" "consistent g" "cells_in_range g" and ij: "i < 9" "j < 9"
      and k: "1 \<le> guess" and run: "guess_loop g i j guess = Inr (b, g')"
    have sc: "\<And>v. set_cell g i j v = Inr (upd g i j v)" using g ij by (simp add: set_cell_shape9)
    have legal: "shape9 (upd g i j guess) \<and> consistent (upd g i j guess)
        \<and> cells_in_range (upd g i j guess) \<and> upd g i j guess ! i ! j \<noteq> 0"
      if v: "is_valid_guess g i j guess = Inr True" and lt: "guess < 10"
    proof -
      have "\<forall>r<9. \<forall>c<9. peer i j r c \<longrightarrow> g ! r ! c \<noteq> guess"
        using v is_valid_guess_peer [OF g(1) ij, of guess] by simp
      then have "consistent (upd g i j guess)" using consistent_upd_guess g ij by blast
      moreover have "cells_in_range (upd g i j guess)"
        using cells_in_range_upd [OF g(3), of guess] k lt by simp
      moreover have "upd g i j guess ! i ! j = guess" using g ij by (simp add: at_upd)
      ultimately show ?thesis using shape9_upd [OF g(1)] k by simp
    qed
    from run show "shape9 g' \<and> consistent g' \<and> cells_in_range g'
        \<and> (b \<longrightarrow> filled_from g' (9 * i + j))"
    proof (cases rule: guess_loop_cases)
      case (exhausted g'')
      then have "g' = upd g i j 0" "b = False" using sc by simp_all
      then show ?thesis
        using shape9_upd [OF g(1)] consistent_upd_zero [OF g(1,2) ij]
          cells_in_range_upd [OF g(3), of 0] by simp
    next
      case illegal
      from "2.IH"(3) [OF illegal(1) illegal(2) refl] g ij k illegal(3) show ?thesis by simp
    next
      case (last g1)
      have g1: "g1 = upd g i j guess" using last(3) sc by simp
      have "i = 8 \<and> j = 8" using next_location_last [OF ij last(4)] .
      then have "filled_from g1 (9 * i + j)"
        using filled_from_last [of g1] legal [OF last(2) last(1)] g1 by simp
      then show ?thesis using legal [OF last(2) last(1)] g1 last(5) by simp
    next
      case (success g1 ni nj g2)
      have g1: "g1 = upd g i j guess" using success(3) sc by simp
      have n: "ni < 9 \<and> nj < 9 \<and> 9 * ni + nj = Suc (9 * i + j)"
        using next_location_bound [OF ij success(4)] .
      have ih: "shape9 g2 \<and> consistent g2 \<and> cells_in_range g2 \<and> filled_from g2 (9 * ni + nj)"
        using "2.IH"(1) [OF success(1) success(2) refl success(3) success(4) refl]
          legal [OF success(2) success(1)] g1 n success(5) by blast
      have "cell g1 i j = Inr guess" using success(3) by (rule cell_set_cell_same)
      then have "cell g2 i j = Inr guess" using solve_frame(1) success(5) k by force
      then have "g2 ! i ! j \<noteq> 0" using cell_value [of g2 i j guess] ih ij k by simp
      then have "filled_from g2 (9 * i + j)" using ih n ij filled_from_step [of g2 i j] by simp
      then show ?thesis using ih success(6) by simp
    next
      case (retry g1 ni nj g2)
      have g1: "g1 = upd g i j guess" using retry(3) sc by simp
      have n: "ni < 9 \<and> nj < 9 \<and> 9 * ni + nj = Suc (9 * i + j)"
        using next_location_bound [OF ij retry(4)] .
      have ih: "shape9 g2 \<and> consistent g2 \<and> cells_in_range g2"
        using "2.IH"(1) [OF retry(1) retry(2) refl retry(3) retry(4) refl]
          legal [OF retry(2) retry(1)] g1 n retry(5) by blast
      from "2.IH"(2) [OF retry(1) retry(2) refl retry(3) retry(4) refl retry(5) refl refl]
        ih ij k retry(6) show ?thesis by simp
    qed
  qed
qed

lemma cells_in_range_nth:
  assumes "cells_in_range g" "shape9 g" "r < 9" "c < 9"
  shows "0 \<le> g ! r ! c \<and> g ! r ! c \<le> 9"
proof -
  have "g ! r \<in> set g" using assms by (simp add: shape9_def)
  moreover have "g ! r ! c \<in> set (g ! r)" using assms by (simp add: shape9_def)
  ultimately show ?thesis using assms(1) unfolding cells_in_range_def by blast
qed

lemma solved_from_invariant:
  assumes g: "shape9 g" "consistent g" "cells_in_range g" "filled_from g 0"
  shows "solved g"
  unfolding solved_def vals_def
proof (intro ballI)
  fix u assume u: "u \<in> set units"
  let ?f = "\<lambda>(r, c). g ! r ! c"
  have d: "distinct u" and l: "length u = 9" using unit_facts u by blast+
  have b: "\<And>p. p \<in> set u \<Longrightarrow> fst p < 9 \<and> snd p < 9" using unit_facts u by blast
  have pr: "\<And>p q. p \<in> set u \<Longrightarrow> q \<in> set u \<Longrightarrow> peer (fst p) (snd p) (fst q) (snd q)"
    using unit_facts u by blast
  have nz: "?f p \<noteq> 0" if "p \<in> set u" for p
    using g(4) b [OF that] unfolding filled_from_def by (cases p) simp
  have rg: "1 \<le> ?f p \<and> ?f p \<le> 9" if "p \<in> set u" for p
  proof -
    obtain r c where p: "p = (r, c)" by (cases p)
    have "0 \<le> g ! r ! c \<and> g ! r ! c \<le> 9"
      using cells_in_range_nth [OF g(3) g(1)] b [OF that] p by simp
    then show ?thesis using nz [OF that] p by simp
  qed
  have "inj_on ?f (set u)"
  proof (rule inj_onI)
    fix p q assume pq: "p \<in> set u" "q \<in> set u" and e: "?f p = ?f q"
    obtain r1 c1 r2 c2 where pe: "p = (r1, c1)" "q = (r2, c2)" by (cases p, cases q)
    show "p = q"
    proof (rule ccontr)
      assume "p \<noteq> q"
      then have "g ! r1 ! c1 \<noteq> g ! r2 ! c2"
        using g(2) b [OF pq(1)] b [OF pq(2)] pr [OF pq] nz [OF pq(1)] pe
        unfolding consistent_def by auto
      then show False using e pe by simp
    qed
  qed
  then have dm: "distinct (map ?f u)" using d by (simp add: distinct_map)
  have "card (set (map ?f u)) = 9" using dm l distinct_card [of "map ?f u"] by simp
  moreover have "set (map ?f u) \<subseteq> {1..9}" using rg by auto
  moreover have "card {1..9::int} = 9" by simp
  ultimately have "set (map ?f u) = {1..9}"
    using card_subset_eq [of "{1..9::int}" "set (map ?f u)"] by simp
  then show "distinct (map ?f u) \<and> set (map ?f u) = {1..9}" using dm by simp
qed

lemma solve_log_result:
  "snd (solve_log g i j) = solve g i j"
  "snd (guess_loop_log g i j guess) = guess_loop g i j guess"
proof (induction g i j and g i j guess rule: solve_log_guess_loop_log.induct)
  case (1 g i j)
  then show ?case
    by (subst solve_log.simps, subst solve.simps)
       (auto split: sum.splits option.splits)
next
  case (2 g i j guess)
  show ?case
  proof (cases "guess < 10")
    case False
    then show ?thesis
      by (subst guess_loop_log.simps, subst guess_loop.simps) (auto split: sum.splits)
  next
    case lt: True
    show ?thesis
    proof (cases "is_valid_guess g i j guess")
      case (Inl e)
      then show ?thesis using lt
        by (subst guess_loop_log.simps, subst guess_loop.simps) simp
    next
      case (Inr ok)
      show ?thesis
      proof (cases ok)
        case False
        then have okF: "ok = False" by simp
        show ?thesis using "2.IH"(3) [OF lt Inr okF] lt Inr okF
          by (subst guess_loop_log.simps, subst guess_loop.simps) simp
      next
        case True
        then have okT: "ok = True" by simp
        show ?thesis
        proof (cases "set_cell g i j guess")
          case (Inl e)
          then show ?thesis using lt \<open>is_valid_guess g i j guess = Inr ok\<close> okT
            by (subst guess_loop_log.simps, subst guess_loop.simps) simp
        next
          case s: (Inr g1)
          show ?thesis
          proof (cases "next_location i j")
            case None
            then show ?thesis using lt Inr okT s
              by (subst guess_loop_log.simps, subst guess_loop.simps) simp
          next
            case (Some p)
            obtain ni nj where p: "p = (ni, nj)" by (cases p)
            obtain l r where lr: "solve_log g1 ni nj = (l, r)" by (cases "solve_log g1 ni nj")
            have r: "solve g1 ni nj = r"
              using "2.IH"(1) [OF lt Inr okT s Some p [symmetric]] lr by simp
            show ?thesis
            proof (cases r)
              case (Inl e)
              then show ?thesis using lt \<open>is_valid_guess g i j guess = Inr ok\<close> okT s Some p lr r
                by (subst guess_loop_log.simps, subst guess_loop.simps) simp
            next
              case rr: (Inr bg)
              obtain b g2 where bg: "bg = (b, g2)" by (cases bg)
              show ?thesis
              proof (cases b)
                case True
                then show ?thesis using lt Inr okT s Some p lr r rr bg
                  by (subst guess_loop_log.simps, subst guess_loop.simps) simp
              next
                case False
                then have bF: "b = False" by simp
                have "snd (guess_loop_log g2 i j (guess + 1)) = guess_loop g2 i j (guess + 1)"
                  using "2.IH"(2) [OF lt Inr okT s Some p [symmetric] lr [symmetric] rr bg [symmetric] bF] .
                then show ?thesis using lt Inr okT s Some p lr r rr bg bF
                  by (subst guess_loop_log.simps, subst guess_loop.simps)
                     (auto split: prod.splits)
              qed
            qed
          qed
        qed
      qed
    qed
  qed
qed

lemma log_states:
  "shape9 g \<and> consistent g \<and> i < 9 \<and> j < 9 \<longrightarrow>
     (\<forall>s\<in>set (fst (solve_log g i j)). shape9 s \<and> consistent s)"
  "shape9 g \<and> consistent g \<and> i < 9 \<and> j < 9 \<longrightarrow>
     (\<forall>s\<in>set (fst (guess_loop_log g i j guess)). shape9 s \<and> consistent s)"
proof (induction g i j and g i j guess rule: solve_log_guess_loop_log.induct)
  case (1 g i j)
  show ?case
  proof (intro impI, elim conjE)
    assume g: "shape9 g" "consistent g" and ij: "i < 9" "j < 9"
    have c: "cell g i j = Inr (g ! i ! j)" using g ij by (simp add: cell_shape9)
    show "\<forall>s\<in>set (fst (solve_log g i j)). shape9 s \<and> consistent s"
    proof (cases "g ! i ! j = 0")
      case True
      then show ?thesis using "1.IH"(2) [OF c] g ij c by (subst solve_log.simps) simp
    next
      case nz: False
      show ?thesis
      proof (cases "next_location i j")
        case None
        then show ?thesis using c nz by (subst solve_log.simps) simp
      next
        case (Some p)
        obtain ni nj where p: "p = (ni, nj)" by (cases p)
        have "ni < 9 \<and> nj < 9" using next_location_bound [OF ij] Some p by blast
        then have "\<forall>s\<in>set (fst (solve_log g ni nj)). shape9 s \<and> consistent s"
          using "1.IH"(1) [OF c nz Some p [symmetric]] g by simp
        then show ?thesis using c nz Some p by (subst solve_log.simps) simp
      qed
    qed
  qed
next
  case (2 g i j guess)
  show ?case
  proof (intro impI, elim conjE)
    assume g: "shape9 g" "consistent g" and ij: "i < 9" "j < 9"
    let ?ok = "\<forall>r<9. \<forall>c<9. peer i j r c \<longrightarrow> g ! r ! c \<noteq> guess"
    have v: "is_valid_guess g i j guess = Inr ?ok" using is_valid_guess_peer [OF g(1) ij] .
    have sc: "\<And>w. set_cell g i j w = Inr (upd g i j w)" using g ij by (simp add: set_cell_shape9)
    show "\<forall>s\<in>set (fst (guess_loop_log g i j guess)). shape9 s \<and> consistent s"
    proof (cases "guess < 10")
      case False
      then show ?thesis
        using sc shape9_upd [OF g(1)] consistent_upd_zero [OF g ij]
        by (subst guess_loop_log.simps) simp
    next
      case lt: True
      show ?thesis
      proof (cases ?ok)
        case False
        then have okF: "?ok = False" by simp
        show ?thesis using "2.IH"(3) [OF lt v okF] lt v okF g ij
          by (subst guess_loop_log.simps) simp
      next
        case True
        then have okT: "?ok = True" by simp
        let ?g1 = "upd g i j guess"
        have g1: "shape9 ?g1" "consistent ?g1"
          using shape9_upd [OF g(1)] consistent_upd_guess [OF g ij True] by simp_all
        show ?thesis
        proof (cases "next_location i j")
          case None
          then show ?thesis using lt v okT sc g1 by (subst guess_loop_log.simps) simp
        next
          case (Some p)
          obtain ni nj where p: "p = (ni, nj)" by (cases p)
          have n: "ni < 9 \<and> nj < 9" using next_location_bound [OF ij] Some p by blast
          obtain l r where lr: "solve_log ?g1 ni nj = (l, r)" by (cases "solve_log ?g1 ni nj")
          have il: "\<forall>s\<in>set l. shape9 s \<and> consistent s"
            using "2.IH"(1) [OF lt v okT sc Some p [symmetric]] g1 n lr by simp
          have r: "solve ?g1 ni nj = r" using solve_log_result(1) [of ?g1 ni nj] lr by simp
          show ?thesis
          proof (cases r)
            case (Inl e)
            then show ?thesis using lt v okT sc Some p lr il g1
              by (subst guess_loop_log.simps) simp
          next
            case rr: (Inr bg)
            obtain b g2 where bg: "bg = (b, g2)" by (cases bg)
            show ?thesis
            proof (cases b)
              case True
              then show ?thesis using lt v okT sc Some p lr rr bg il g1
                by (subst guess_loop_log.simps) simp
            next
              case False
              then have bF: "b = False" by simp
              have "g2 = ?g1" using failure_restores(1) r rr bg bF by blast
              then have g2: "shape9 g2" "consistent g2" using g1 by simp_all
              obtain l' r' where lr': "guess_loop_log g2 i j (guess + 1) = (l', r')"
                by (cases "guess_loop_log g2 i j (guess + 1)")
              have "\<forall>s\<in>set l'. shape9 s \<and> consistent s"
                using "2.IH"(2) [OF lt v okT sc Some p [symmetric] lr [symmetric] rr
                    bg [symmetric] bF] g2 ij lr' by simp
              then show ?thesis using lt v okT sc Some p lr rr bg bF lr' il g1
                by (subst guess_loop_log.simps) auto
            qed
          qed
        qed
      qed
    qed
  qed
qed

lemma solve_log_cases:
  assumes "solve_log g i j = (log, r)"
  obtains (read_error) e where "cell g i j = Inl e" "log = []" "r = Inl e"
  | (last) v where "cell g i j = Inr v" "v \<noteq> 0" "next_location i j = None"
      "log = []" "r = Inr (True, g)"
  | (advance) v ni nj where "cell g i j = Inr v" "v \<noteq> 0" "next_location i j = Some (ni, nj)"
      "solve_log g ni nj = (log, r)"
  | (empty) "cell g i j = Inr 0" "guess_loop_log g i j 1 = (log, r)"
  using assms
  by (subst (asm) solve_log.simps) (auto split: sum.splits if_splits option.splits)

lemma guess_loop_log_cases:
  assumes "guess_loop_log g i j guess = (log, r)"
  obtains (reset_error) e where "\<not> guess < 10" "set_cell g i j 0 = Inl e" "log = []" "r = Inl e"
  | (exhausted) g' where "\<not> guess < 10" "set_cell g i j 0 = Inr g'" "log = [g']"
      "r = Inr (False, g')"
  | (check_error) e where "guess < 10" "is_valid_guess g i j guess = Inl e" "log = []" "r = Inl e"
  | (illegal) "guess < 10" "is_valid_guess g i j guess = Inr False"
      "guess_loop_log g i j (guess + 1) = (log, r)"
  | (write_error) e where "guess < 10" "is_valid_guess g i j guess = Inr True"
      "set_cell g i j guess = Inl e" "log = []" "r = Inl e"
  | (last) g1 where "guess < 10" "is_valid_guess g i j guess = Inr True"
      "set_cell g i j guess = Inr g1" "next_location i j = None" "log = [g1]"
      "r = Inr (True, g1)"
  | (call_error) g1 ni nj l e where "guess < 10" "is_valid_guess g i j guess = Inr True"
      "set_cell g i j guess = Inr g1" "next_location i j = Some (ni, nj)"
      "solve_log g1 ni nj = (l, Inl e)" "log = g1 # l" "r = Inl e"
  | (success) g1 ni nj l g2 where "guess < 10" "is_valid_guess g i j guess = Inr True"
      "set_cell g i j guess = Inr g1" "next_location i j = Some (ni, nj)"
      "solve_log g1 ni nj = (l, Inr (True, g2))" "log = g1 # l" "r = Inr (True, g2)"
  | (retry) g1 ni nj l g2 l' where "guess < 10" "is_valid_guess g i j guess = Inr True"
      "set_cell g i j guess = Inr g1" "next_location i j = Some (ni, nj)"
      "solve_log g1 ni nj = (l, Inr (False, g2))"
      "guess_loop_log g2 i j (guess + 1) = (l', r)" "log = g1 # l @ l'"
  using assms
  by (subst (asm) guess_loop_log.simps)
     (auto split: sum.splits if_splits option.splits bool.splits prod.splits)

lemma rank_differs: "rank a b < rank i j \<Longrightarrow> (a, b) \<noteq> (i, j)"
  by auto

lemma log_frame:
  "\<forall>a b. rank a b < rank i j \<longrightarrow>
     (\<forall>s\<in>set (fst (solve_log g i j)). cell s a b = cell g a b)"
  "\<forall>a b. rank a b < rank i j \<longrightarrow>
     (\<forall>s\<in>set (fst (guess_loop_log g i j guess)). cell s a b = cell g a b)"
proof (induction g i j and g i j guess rule: solve_log_guess_loop_log.induct)
  case (1 g i j)
  show ?case
  proof (intro allI impI)
    fix a b assume lt: "rank a b < rank i j"
    obtain log r where run: "solve_log g i j = (log, r)" by (cases "solve_log g i j")
    from run have "\<forall>s\<in>set log. cell s a b = cell g a b"
    proof (cases rule: solve_log_cases)
      case (read_error e)
      then show ?thesis by simp
    next
      case (last v)
      then show ?thesis by simp
    next
      case (advance v ni nj)
      have "rank a b < rank ni nj" using next_location_rank [OF advance(3)] lt by simp
      then show ?thesis
        using "1.IH"(1) [OF advance(1) advance(2) advance(3) refl] advance(4) by simp
    next
      case empty
      have "\<not> (0::int) \<noteq> 0" by simp
      from "1.IH"(2) [OF empty(1) this] lt empty(2) show ?thesis by simp
    qed
    then show "\<forall>s\<in>set (fst (solve_log g i j)). cell s a b = cell g a b" using run by simp
  qed
next
  case (2 g i j guess)
  show ?case
  proof (intro allI impI)
    fix a b assume lt: "rank a b < rank i j"
    then have ne: "(a, b) \<noteq> (i, j)" by (rule rank_differs)
    obtain log r where run: "guess_loop_log g i j guess = (log, r)"
      by (cases "guess_loop_log g i j guess")
    from run have "\<forall>s\<in>set log. cell s a b = cell g a b"
    proof (cases rule: guess_loop_log_cases)
      case (reset_error e)
      then show ?thesis by simp
    next
      case (exhausted g')
      then show ?thesis using cell_set_cell_other [OF exhausted(2) ne] by simp
    next
      case (check_error e)
      then show ?thesis by simp
    next
      case illegal
      from "2.IH"(3) [OF illegal(1) illegal(2) refl] lt illegal(3) show ?thesis by simp
    next
      case (write_error e)
      then show ?thesis by simp
    next
      case (last g1)
      then show ?thesis using cell_set_cell_other [OF last(3) ne] by simp
    next
      case (call_error g1 ni nj l e)
      have g1: "cell g1 a b = cell g a b" using cell_set_cell_other [OF call_error(3) ne] .
      have "rank a b < rank ni nj" using next_location_rank [OF call_error(4)] lt by simp
      then have "\<forall>s\<in>set l. cell s a b = cell g1 a b"
        using "2.IH"(1) [OF call_error(1) call_error(2) refl call_error(3) call_error(4) refl]
          call_error(5) by simp
      then show ?thesis using g1 call_error(6) by simp
    next
      case (success g1 ni nj l g2)
      have g1: "cell g1 a b = cell g a b" using cell_set_cell_other [OF success(3) ne] .
      have "rank a b < rank ni nj" using next_location_rank [OF success(4)] lt by simp
      then have "\<forall>s\<in>set l. cell s a b = cell g1 a b"
        using "2.IH"(1) [OF success(1) success(2) refl success(3) success(4) refl]
          success(5) by simp
      then show ?thesis using g1 success(6) by simp
    next
      case (retry g1 ni nj l g2 l')
      have g1: "cell g1 a b = cell g a b" using cell_set_cell_other [OF retry(3) ne] .
      have "rank a b < rank ni nj" using next_location_rank [OF retry(4)] lt by simp
      then have il: "\<forall>s\<in>set l. cell s a b = cell g1 a b"
        using "2.IH"(1) [OF retry(1) retry(2) refl retry(3) retry(4) refl] retry(5) by simp
      have "solve g1 ni nj = Inr (False, g2)"
        using solve_log_result(1) [of g1 ni nj] retry(5) by simp
      then have e: "g2 = g1" using failure_restores(1) by blast
      have "\<forall>s\<in>set l'. cell s a b = cell g2 a b"
        using "2.IH"(2) [OF retry(1) retry(2) refl retry(3) retry(4) refl retry(5) [symmetric]
            refl refl refl] lt retry(6) by simp
      then show ?thesis using g1 il e retry(7) by auto
    qed
    then show "\<forall>s\<in>set (fst (guess_loop_log g i j guess)). cell s a b = cell g a b"
      using run by simp
  qed
qed

lemma result_is_last_state:
  "\<forall>l b g'. solve_log g i j = (l, Inr (b, g')) \<longrightarrow> g' = last (g # l)"
  "\<forall>l b g'. guess_loop_log g i j guess = (l, Inr (b, g')) \<longrightarrow> g' = last (g # l)"
proof (induction g i j and g i j guess rule: solve_log_guess_loop_log.induct)
  case (1 g i j)
  show ?case
  proof (intro allI impI)
    fix log b g' assume run: "solve_log g i j = (log, Inr (b, g'))"
    from run show "g' = last (g # log)"
    proof (cases rule: solve_log_cases)
      case (read_error e)
      then show ?thesis by simp
    next
      case (last v)
      then show ?thesis by simp
    next
      case (advance v ni nj)
      then show ?thesis
        using "1.IH"(1) [OF advance(1) advance(2) advance(3) refl] by blast
    next
      case empty
      have "\<not> (0::int) \<noteq> 0" by simp
      from "1.IH"(2) [OF empty(1) this] empty(2) show ?thesis by blast
    qed
  qed
next
  case (2 g i j guess)
  show ?case
  proof (intro allI impI)
    fix log b g' assume run: "guess_loop_log g i j guess = (log, Inr (b, g'))"
    from run show "g' = last (g # log)"
    proof (cases rule: guess_loop_log_cases)
      case (reset_error e)
      then show ?thesis by simp
    next
      case (exhausted g'')
      then show ?thesis by simp
    next
      case (check_error e)
      then show ?thesis by simp
    next
      case illegal
      from "2.IH"(3) [OF illegal(1) illegal(2) refl] illegal(3) show ?thesis by blast
    next
      case (write_error e)
      then show ?thesis by simp
    next
      case (last g1)
      then show ?thesis by simp
    next
      case (call_error g1 ni nj l e)
      then show ?thesis by simp
    next
      case (success g1 ni nj l g2)
      have "g2 = last (g1 # l)"
        using "2.IH"(1) [OF success(1) success(2) refl success(3) success(4) refl] success(5)
        by blast
      then show ?thesis using success(6,7) by simp
    next
      case (retry g1 ni nj l g2 l')
      have a: "g2 = last (g1 # l)"
        using "2.IH"(1) [OF retry(1) retry(2) refl retry(3) retry(4) refl] retry(5) by blast
      have "g' = last (g2 # l')"
        using "2.IH"(2) [OF retry(1) retry(2) refl retry(3) retry(4) refl retry(5) [symmetric]
            refl refl refl] retry(6) by blast
      then show ?thesis using a retry(7) by (cases "l' = []") simp_all
    qed
  qed
qed

lemma loop_log_cells:
  assumes "1 \<le> guess" "guess_loop_log g i j guess = (log, r)"
  shows "(\<forall>s\<in>set (if (\<exists>g'. r = Inr (False, g')) then butlast log else log).
            \<exists>k. cell s i j = Inr k \<and> guess \<le> k \<and> k < 10)
       \<and> (\<forall>g'. r = Inr (False, g') \<longrightarrow> log \<noteq> [] \<and> last log = g' \<and> cell g' i j = Inr 0)"
  using assms
proof (induction "nat (10 - guess)" arbitrary: g guess log r rule: less_induct)
  case less
  let ?mid = "\<lambda>s. \<exists>k. cell s i j = Inr k \<and> guess \<le> k \<and> k < 10"
  have step: "(\<forall>s\<in>set (if (\<exists>g'. r = Inr (False, g')) then butlast l' else l'). ?mid s)
       \<and> (\<forall>g'. r = Inr (False, g') \<longrightarrow> l' \<noteq> [] \<and> last l' = g' \<and> cell g' i j = Inr 0)"
    if lt: "guess < 10" and run': "guess_loop_log h i j (guess + 1) = (l', r)" for h l'
  proof -
    have "nat (10 - (guess + 1)) < nat (10 - guess)" using lt by simp
    moreover have "1 \<le> guess + 1" using less.prems(1) by simp
    ultimately have "(\<forall>s\<in>set (if (\<exists>g'. r = Inr (False, g')) then butlast l' else l').
          \<exists>k. cell s i j = Inr k \<and> guess + 1 \<le> k \<and> k < 10)
       \<and> (\<forall>g'. r = Inr (False, g') \<longrightarrow> l' \<noteq> [] \<and> last l' = g' \<and> cell g' i j = Inr 0)"
      using less.hyps [of "guess + 1" h l' r] run' by blast
    then show ?thesis by fastforce
  qed
  have written: "?mid g1 \<and> (\<forall>s\<in>set l. ?mid s)"
    if lt: "guess < 10" and w: "set_cell g i j guess = Inr g1"
      and n: "next_location i j = Some (ni, nj)" and rec: "fst (solve_log g1 ni nj) = l"
    for g1 ni nj l
  proof -
    have c: "cell g1 i j = Inr guess" using w by (rule cell_set_cell_same)
    have "rank i j < rank ni nj" using next_location_rank [OF n] by simp
    then have "\<forall>s\<in>set l. cell s i j = cell g1 i j" using log_frame(1) rec by blast
    then show ?thesis using c lt by simp
  qed
  from less.prems(2) show ?case
  proof (cases rule: guess_loop_log_cases)
    case (reset_error e)
    then show ?thesis by simp
  next
    case (exhausted g')
    then show ?thesis using cell_set_cell_same [OF exhausted(2)] by simp
  next
    case (check_error e)
    then show ?thesis by simp
  next
    case illegal
    then show ?thesis using step by blast
  next
    case (write_error e)
    then show ?thesis by simp
  next
    case (last g1)
    then show ?thesis using cell_set_cell_same [OF last(3)] by simp
  next
    case (call_error g1 ni nj l e)
    then show ?thesis using written [OF call_error(1) call_error(3) call_error(4), of l] by simp
  next
    case (success g1 ni nj l g2)
    then show ?thesis using written [OF success(1) success(3) success(4), of l] by simp
  next
    case (retry g1 ni nj l g2 l')
    have w: "?mid g1 \<and> (\<forall>s\<in>set l. ?mid s)"
      using written [OF retry(1) retry(3) retry(4), of l] retry(5) by simp
    have st: "(\<forall>s\<in>set (if (\<exists>g'. r = Inr (False, g')) then butlast l' else l'). ?mid s)
       \<and> (\<forall>g'. r = Inr (False, g') \<longrightarrow> l' \<noteq> [] \<and> last l' = g' \<and> cell g' i j = Inr 0)"
      using step [OF retry(1) retry(6)] .
    show ?thesis
    proof (cases "\<exists>g'. r = Inr (False, g')")
      case True
      then have ne: "l' \<noteq> []" using st by blast
      then have "butlast log = g1 # l @ butlast l'" "last log = last l'"
        using retry(7) by (simp_all add: butlast_append)
      then show ?thesis using True w st ne retry(7) by auto
    next
      case False
      then show ?thesis using w st retry(7) by auto
    qed
  qed
qed

lemma retry_step:
  assumes "guess_loop_log g i j guess = (log, r)" "guess < 10"
    "is_valid_guess g i j guess = Inr True" "set_cell g i j guess = Inr g1"
    "next_location i j = Some (ni, nj)" "solve_log g1 ni nj = (l, Inr (False, g2))"
  shows "g2 = last (g1 # l) \<and> cell g2 i j = Inr guess
       \<and> (\<exists>l'. guess_loop_log g2 i j (guess + 1) = (l', r) \<and> log = g1 # l @ l')"
proof -
  have a: "g2 = last (g1 # l)" using result_is_last_state(1) assms(6) by blast
  have "solve g1 ni nj = Inr (False, g2)"
    using solve_log_result(1) [of g1 ni nj] assms(6) by simp
  then have "g2 = g1" using failure_restores(1) by blast
  then have c: "cell g2 i j = Inr guess" using cell_set_cell_same [OF assms(4)] by simp
  obtain l' r' where n: "guess_loop_log g2 i j (guess + 1) = (l', r')"
    by (cases "guess_loop_log g2 i j (guess + 1)")
  have "guess_loop_log g i j guess = (g1 # l @ l', r')"
    using assms(2-6) n by (subst guess_loop_log.simps) simp
  then show ?thesis using a c n assms(1) by simp
qed

lemma row_major_less_index:
  "c' < 9 \<Longrightarrow> c < 9 \<Longrightarrow> row_major_less (r', c') (r, c) = (9 * r' + c' < 9 * r + c)"
  unfolding row_major_less_def by auto

lemma found_before_precedes: "found_before g h = precedes g h"
  unfolding found_before_def precedes_def
  by (simp add: row_major_less_index Ball_def Bex_def) 

lemma solved_pointwise:
  assumes "solved h"
  shows "consistent h" and "\<forall>r<9. \<forall>c<9. 1 \<le> h ! r ! c \<and> h ! r ! c \<le> 9"
proof -
  have "no_duplicates h"
    using assms unfolding solved_def no_duplicates_def by (simp add: distinct_filter)
  then show "consistent h" by (simp add: no_duplicates_consistent)
  show "\<forall>r<9. \<forall>c<9. 1 \<le> h ! r ! c \<and> h ! r ! c \<le> 9"
  proof (intro allI impI)
    fix r c :: nat assume rc: "r < 9" "c < 9"
    have "row_cells r \<in> set units" using rc by (simp add: units_def)
    then have "set (vals h (row_cells r)) = {1..9}" using assms unfolding solved_def by blast
    moreover have "h ! r ! c \<in> set (vals h (row_cells r))"
      using rc by (force simp: vals_def set_row_cells)
    ultimately show "1 \<le> h ! r ! c \<and> h ! r ! c \<le> 9" by simp
  qed
qed

lemma cells_in_rangeI:
  assumes "shape9 g" "\<forall>r<9. \<forall>c<9. 0 \<le> g ! r ! c \<and> g ! r ! c \<le> 9"
  shows "cells_in_range g"
  unfolding cells_in_range_def
proof (intro ballI)
  fix row v assume "row \<in> set g" "v \<in> set row"
  then obtain r c where "r < length g" "row = g ! r" "c < length row" "v = row ! c"
    by (metis in_set_conv_nth)
  then show "0 \<le> v \<and> v \<le> 9" using assms by (simp add: shape9_def)
qed

lemma consistentD:
  assumes "consistent g" "r1 < 9" "c1 < 9" "r2 < 9" "c2 < 9" "(r1, c1) \<noteq> (r2, c2)"
    "peer r1 c1 r2 c2" "g ! r1 ! c1 \<noteq> 0"
  shows "g ! r1 ! c1 \<noteq> g ! r2 ! c2"
  using assms unfolding consistent_def by blast

lemma solve_finds_first:
  assumes H: "shape9 h" "consistent h" "\<forall>r<9. \<forall>c<9. 1 \<le> h ! r ! c \<and> h ! r ! c \<le> 9"
  shows
  "shape9 g \<and> i < 9 \<and> j < 9 \<and> (\<forall>r<9. \<forall>c<9. g ! r ! c \<noteq> 0 \<longrightarrow> h ! r ! c = g ! r ! c)
     \<and> filled_before g (9 * i + j) \<longrightarrow>
   (\<exists>g'. solve g i j = Inr (True, g') \<and> (g' = h \<or> precedes g' h))"
  "shape9 g \<and> i < 9 \<and> j < 9
     \<and> (\<forall>r<9. \<forall>c<9. (r, c) \<noteq> (i, j) \<longrightarrow> g ! r ! c \<noteq> 0 \<longrightarrow> h ! r ! c = g ! r ! c)
     \<and> filled_before g (9 * i + j) \<and> g ! i ! j < guess \<and> 1 \<le> guess \<and> guess \<le> h ! i ! j \<longrightarrow>
   (\<exists>g'. guess_loop g i j guess = Inr (True, g') \<and> (g' = h \<or> precedes g' h))"
proof (induction g i j and g i j guess rule: solve_guess_loop.induct)
  case (1 g i j)
  show ?case
  proof (intro impI, elim conjE)
    assume g: "shape9 g" and ij: "i < 9" "j < 9"
      and ext: "\<forall>r<9. \<forall>c<9. g ! r ! c \<noteq> 0 \<longrightarrow> h ! r ! c = g ! r ! c"
      and fb: "filled_before g (9 * i + j)"
    have c: "cell g i j = Inr (g ! i ! j)" using g ij by (simp add: cell_shape9)
    show "\<exists>g'. solve g i j = Inr (True, g') \<and> (g' = h \<or> precedes g' h)"
    proof (cases "g ! i ! j = 0")
      case True
      have "1 \<le> h ! i ! j" using H(3) ij by simp
      then have "\<exists>g'. guess_loop g i j 1 = Inr (True, g') \<and> (g' = h \<or> precedes g' h)"
        using "1.IH"(2) [OF c] True g ij ext fb by simp
      then show ?thesis using c True by (subst solve.simps) simp
    next
      case nz: False
      show ?thesis
      proof (cases "next_location i j")
        case None
        then have l: "i = 8 \<and> j = 8" using next_location_last [OF ij] by simp
        have "g = h"
        proof (rule grid_eqI [OF g H(1)])
          fix r c :: nat assume rc: "r < 9" "c < 9"
          have "g ! r ! c \<noteq> 0"
          proof (cases "r = 8 \<and> c = 8")
            case True
            then show ?thesis using nz l by simp
          next
            case False
            then have "9 * r + c < 9 * i + j" using rc l by linarith
            then show ?thesis using fb rc unfolding filled_before_def by blast
          qed
          then show "g ! r ! c = h ! r ! c" using ext rc by simp
        qed
        then show ?thesis using c nz None by (subst solve.simps) simp
      next
        case (Some p)
        obtain ni nj where p: "p = (ni, nj)" by (cases p)
        have n: "ni < 9 \<and> nj < 9 \<and> 9 * ni + nj = Suc (9 * i + j)"
          using next_location_bound [OF ij] Some p by blast
        have "filled_before g (9 * ni + nj)"
          unfolding filled_before_def
        proof (intro allI impI)
          fix r c :: nat assume rc: "r < 9" "c < 9" "9 * r + c < 9 * ni + nj"
          show "g ! r ! c \<noteq> 0"
          proof (cases "9 * r + c = 9 * i + j")
            case True
            then have "r = i \<and> c = j" using position_unique rc ij by blast
            then show ?thesis using nz by simp
          next
            case False
            then have "9 * r + c < 9 * i + j" using rc n by linarith
            then show ?thesis using fb rc unfolding filled_before_def by blast
          qed
        qed
        then have "\<exists>g'. solve g ni nj = Inr (True, g') \<and> (g' = h \<or> precedes g' h)"
          using "1.IH"(1) [OF c nz Some p [symmetric]] g n ext by simp
        then show ?thesis using c nz Some p by (subst solve.simps) simp
      qed
    qed
  qed
next
  case (2 g i j guess)
  show ?case
  proof (intro impI, elim conjE)
    assume g: "shape9 g" and ij: "i < 9" "j < 9"
      and ext: "\<forall>r<9. \<forall>c<9. (r, c) \<noteq> (i, j) \<longrightarrow> g ! r ! c \<noteq> 0 \<longrightarrow> h ! r ! c = g ! r ! c"
      and fb: "filled_before g (9 * i + j)"
      and k: "g ! i ! j < guess" "1 \<le> guess" "guess \<le> h ! i ! j"
    have lt: "guess < 10" using k(3) H(3) ij by force
    let ?ok = "\<forall>r<9. \<forall>c<9. peer i j r c \<longrightarrow> g ! r ! c \<noteq> guess"
    have v: "is_valid_guess g i j guess = Inr ?ok" using is_valid_guess_peer [OF g ij] .
    have sc: "\<And>w. set_cell g i j w = Inr (upd g i j w)" using g ij by (simp add: set_cell_shape9)
    show "\<exists>g'. guess_loop g i j guess = Inr (True, g') \<and> (g' = h \<or> precedes g' h)"
    proof (cases ?ok)
      case False
      then have okF: "?ok = False" by simp
      obtain r c where rc: "r < 9" "c < 9" "peer i j r c" "g ! r ! c = guess"
        using False by blast
      have ne: "(r, c) \<noteq> (i, j)" using rc(4) k(1) by auto
      then have hv: "h ! r ! c = guess" using ext rc k(2) by auto
      have "peer r c i j" using rc(3) by (rule peer_sym)
      moreover have "h ! r ! c \<noteq> 0" using hv k(2) by simp
      ultimately have "h ! r ! c \<noteq> h ! i ! j"
        using consistentD [OF H(2) rc(1,2) ij ne] by blast
      then have "guess + 1 \<le> h ! i ! j" using hv k(3) by simp
      then have "\<exists>g'. guess_loop g i j (guess + 1) = Inr (True, g') \<and> (g' = h \<or> precedes g' h)"
        using "2.IH"(3) [OF lt v okF] g ij ext fb k by simp
      then show ?thesis using lt v okF by (subst guess_loop.simps) simp
    next
      case True
      then have okT: "?ok = True" by simp
      let ?g1 = "upd g i j guess"
      have g1: "shape9 ?g1" using g by (rule shape9_upd)
      have at1: "\<And>r c. r < 9 \<Longrightarrow> c < 9 \<Longrightarrow>
          ?g1 ! r ! c = (if r = i \<and> c = j then guess else g ! r ! c)"
        using g ij by (simp add: at_upd)
      have pre: "\<And>r c. r < 9 \<Longrightarrow> c < 9 \<Longrightarrow> 9 * r + c < 9 * i + j \<Longrightarrow>
          ?g1 ! r ! c = h ! r ! c \<and> ?g1 ! r ! c \<noteq> 0"
      proof -
        fix r c :: nat assume rc: "r < 9" "c < 9" "9 * r + c < 9 * i + j"
        then have ne: "(r, c) \<noteq> (i, j)" by auto
        have "g ! r ! c \<noteq> 0" using fb rc unfolding filled_before_def by blast
        then show "?g1 ! r ! c = h ! r ! c \<and> ?g1 ! r ! c \<noteq> 0"
          using ext rc ne at1 [OF rc(1,2)] by auto
      qed
      show ?thesis
      proof (cases "next_location i j")
        case None
        then have l: "i = 8 \<and> j = 8" using next_location_last [OF ij] by simp
        have run: "guess_loop g i j guess = Inr (True, ?g1)"
          using lt v okT sc None by (subst guess_loop.simps) simp
        have others: "\<And>r c. r < 9 \<Longrightarrow> c < 9 \<Longrightarrow> (r, c) \<noteq> (i, j) \<Longrightarrow> ?g1 ! r ! c = h ! r ! c"
        proof -
          fix r c :: nat assume rc: "r < 9" "c < 9" "(r, c) \<noteq> (i, j)"
          then have "9 * r + c < 9 * i + j" using l by auto
          then show "?g1 ! r ! c = h ! r ! c" using pre rc by blast
        qed
        show ?thesis
        proof (cases "h ! i ! j = guess")
          case True
          have "?g1 = h"
          proof (rule grid_eqI [OF g1 H(1)])
            fix r c :: nat assume rc: "r < 9" "c < 9"
            show "?g1 ! r ! c = h ! r ! c"
              using others [OF rc] at1 [OF rc] True by (cases "(r, c) = (i, j)") auto
          qed
          then show ?thesis using run by simp
        next
          case False
          then have "?g1 ! i ! j < h ! i ! j" using k(3) at1 [OF ij] by simp
          moreover have "\<forall>r'<9. \<forall>c'<9. 9 * r' + c' < 9 * i + j \<longrightarrow> ?g1 ! r' ! c' = h ! r' ! c'"
            using pre by blast
          ultimately have "precedes ?g1 h" unfolding precedes_def using ij by blast
          then show ?thesis using run by simp
        qed
      next
        case (Some p)
        obtain ni nj where p: "p = (ni, nj)" by (cases p)
        have n: "ni < 9 \<and> nj < 9 \<and> 9 * ni + nj = Suc (9 * i + j)"
          using next_location_bound [OF ij] Some p by blast
        obtain b g2 where r: "solve ?g1 ni nj = Inr (b, g2)" and g2: "shape9 g2"
          using solve_total(1) [of ?g1 ni nj] g1 n by blast
        show ?thesis
        proof (cases "h ! i ! j = guess")
          case True
          have e1: "\<forall>r<9. \<forall>c<9. ?g1 ! r ! c \<noteq> 0 \<longrightarrow> h ! r ! c = ?g1 ! r ! c"
          proof (intro allI impI)
            fix r c :: nat assume rc: "r < 9" "c < 9" "?g1 ! r ! c \<noteq> 0"
            show "h ! r ! c = ?g1 ! r ! c"
              using ext rc at1 [OF rc(1,2)] True by (cases "(r, c) = (i, j)") auto
          qed
          have f1: "filled_before ?g1 (9 * ni + nj)"
            unfolding filled_before_def
          proof (intro allI impI)
            fix r c :: nat assume rc: "r < 9" "c < 9" "9 * r + c < 9 * ni + nj"
            show "?g1 ! r ! c \<noteq> 0"
            proof (cases "9 * r + c = 9 * i + j")
              case True
              then have "r = i \<and> c = j" using position_unique rc ij by blast
              then show ?thesis using at1 [OF rc(1,2)] k(2) by simp
            next
              case False
              then have "9 * r + c < 9 * i + j" using rc n by linarith
              then show ?thesis using pre rc by blast
            qed
          qed
          obtain g' where g': "solve ?g1 ni nj = Inr (True, g')" "g' = h \<or> precedes g' h"
            using "2.IH"(1) [OF lt v okT sc Some p [symmetric]] g1 n e1 f1 by blast
          have "guess_loop g i j guess = Inr (True, g')"
            using lt v okT sc Some p g'(1) by (subst guess_loop.simps) simp
          then show ?thesis using g'(2) by blast
        next
          case False
          then have less: "guess < h ! i ! j" using k(3) by simp
          show ?thesis
          proof (cases b)
            case True
            have run: "guess_loop g i j guess = Inr (True, g2)"
              using lt v okT sc Some p r True by (subst guess_loop.simps) simp
            have keep: "\<And>r c. r < 9 \<Longrightarrow> c < 9 \<Longrightarrow> ?g1 ! r ! c \<noteq> 0 \<Longrightarrow>
                g2 ! r ! c = ?g1 ! r ! c"
            proof -
              fix r c :: nat assume rc: "r < 9" "c < 9" "?g1 ! r ! c \<noteq> 0"
              have "cell ?g1 r c = Inr (?g1 ! r ! c)" using g1 rc by (simp add: cell_shape9)
              then have "cell g2 r c = Inr (?g1 ! r ! c)" using solve_frame(1) r rc(3) by blast
              then show "g2 ! r ! c = ?g1 ! r ! c" using cell_value [OF g2 rc(1,2)] by simp
            qed
            have "g2 ! i ! j = guess" using keep [OF ij] at1 [OF ij] k(2) by simp
            then have "g2 ! i ! j < h ! i ! j" using less by simp
            moreover have "\<forall>r'<9. \<forall>c'<9. 9 * r' + c' < 9 * i + j \<longrightarrow> g2 ! r' ! c' = h ! r' ! c'"
            proof (intro allI impI)
              fix r' c' :: nat assume rc: "r' < 9" "c' < 9" "9 * r' + c' < 9 * i + j"
              have "?g1 ! r' ! c' = h ! r' ! c' \<and> ?g1 ! r' ! c' \<noteq> 0" using pre [OF rc] .
              then show "g2 ! r' ! c' = h ! r' ! c'" using keep [OF rc(1,2)] by simp
            qed
            ultimately have "precedes g2 h" unfolding precedes_def using ij by blast
            then show ?thesis using run by simp
          next
            case bF': False
            then have bF: "b = False" by simp
            have e: "g2 = ?g1" using failure_restores(1) r bF by blast
            have e2: "\<forall>r<9. \<forall>c<9. (r, c) \<noteq> (i, j) \<longrightarrow> g2 ! r ! c \<noteq> 0
                \<longrightarrow> h ! r ! c = g2 ! r ! c"
              using ext at1 e by auto
            have f2: "filled_before g2 (9 * i + j)"
              unfolding filled_before_def using pre e by blast
            have "g2 ! i ! j < guess + 1" using e at1 [OF ij] by simp
            then have "\<exists>g'. guess_loop g2 i j (guess + 1) = Inr (True, g')
                \<and> (g' = h \<or> precedes g' h)"
              using "2.IH"(2) [OF lt v okT sc Some p [symmetric] r refl bF] g2 ij e2 f2 less k(2)
              by simp
            then show ?thesis using lt v okT sc Some p r bF by (subst guess_loop.simps) simp
          qed
        qed
      qed
    qed
  qed
qed

lemma extends_pointwise:
  "extends g h = (\<forall>r<9. \<forall>c<9. g ! r ! c \<noteq> 0 \<longrightarrow> h ! r ! c = g ! r ! c)"
  unfolding extends_def by (simp add: Ball_def)

lemma extends_consistent:
  assumes "consistent h" "extends g h"
  shows "consistent g"
  unfolding consistent_def
proof (intro allI impI)
  fix r1 c1 r2 c2
  assume b: "r1 < (9::nat)" "c1 < (9::nat)" "r2 < (9::nat)" "c2 < (9::nat)"
    and ne: "(r1, c1) \<noteq> (r2, c2)" and p: "peer r1 c1 r2 c2" and nz: "g ! r1 ! c1 \<noteq> 0"
  have e1: "h ! r1 ! c1 = g ! r1 ! c1" using assms(2) b nz by (simp add: extends_pointwise)
  show "g ! r1 ! c1 \<noteq> g ! r2 ! c2"
  proof (cases "g ! r2 ! c2 = 0")
    case True
    then show ?thesis using nz by simp
  next
    case False
    then have "h ! r2 ! c2 = g ! r2 ! c2" using assms(2) b by (simp add: extends_pointwise)
    moreover have "h ! r1 ! c1 \<noteq> h ! r2 ! c2"
      using consistentD [OF assms(1) b ne p] e1 nz by simp
    ultimately show ?thesis using e1 by simp
  qed
qed

section \<open>The claims\<close>

text \<open>
  \<^bold>\<open>C1\<close>, as the code has it. The search never checks the digits it is given, so the
  claim needs the input to be free of conflicts: when a 9 by 9 grid with cells between 0
  and 9 has no non-zero value twice in a row, column or box, and \<open>solve\<close> at \<open>(0, 0)\<close>
  returns true, then every row, column and box of the grid it leaves holds exactly the
  values 1 to 9, none twice. Without that hypothesis the claim fails: on the grid of 81
  ones \<open>solve\<close> returns true and row 0 holds the value 1 only.
\<close>

theorem solve_true_solved:
  assumes "shape9 g" "cells_in_range g" "no_duplicates g" "solve g 0 0 = Inr (True, g')"
  shows "solved g'"
proof -
  have "consistent g" using assms(3) by (simp add: no_duplicates_consistent)
  then have "\<forall>b h. solve g 0 0 = Inr (b, h) \<longrightarrow>
      shape9 h \<and> consistent h \<and> cells_in_range h \<and> (b \<longrightarrow> filled_from h (9 * 0 + 0))"
    using solve_sound(1) [of g 0 0] assms(1,2) by simp
  then have "shape9 g' \<and> consistent g' \<and> cells_in_range g' \<and> filled_from g' (9 * 0 + 0)"
    using assms(4) by blast
  then show ?thesis using solved_from_invariant by simp
qed

theorem solve_true_solved_witness:
  "shape9 two_solutions_example \<and> cells_in_range two_solutions_example
   \<and> no_duplicates two_solutions_example
   \<and> solve two_solutions_example 0 0 = Inr (True, first_found_example)
   \<and> solved first_found_example"
proof -
  have h: "shape9 two_solutions_example" "cells_in_range two_solutions_example"
    "no_duplicates two_solutions_example"
    "solve two_solutions_example 0 0 = Inr (True, first_found_example)"
    by code_simp+
  show ?thesis using h solve_true_solved [OF h] by simp
qed

theorem conflicting_input_counterexample:
  "shape9 all_ones \<and> cells_in_range all_ones
   \<and> solve all_ones 0 0 = Inr (True, all_ones)
   \<and> set (vals all_ones (row_cells 0)) \<noteq> {1..9} \<and> \<not> solved all_ones"
  by code_simp

text \<open>
  \<^bold>\<open>C2\<close>. Whenever \<open>solve\<close> at \<open>(0, 0)\<close> returns false (so it raised nothing), the
  grid it leaves is the grid it was given, cell for cell: every guess has been reset to
  zero and no fixed cell has changed. This holds for every list of rows, of any shape.
\<close>

theorem solve_failure_restores:
  assumes "solve g 0 0 = Inr (False, g')"
  shows "g' = g"
  using assms failure_restores(1) by blast

theorem solve_failure_restores_witness:
  "\<exists>g'. solve stuck_example 0 0 = Inr (False, g') \<and> g' = stuck_example"
proof -
  have h: "solve stuck_example 0 0 = Inr (False, stuck_example)" by code_simp
  show ?thesis using h solve_failure_restores [OF h] by blast
qed

text \<open>
  \<^bold>\<open>C3\<close>, as the code has it. The legality check keeps the invariant but does not
  establish it: when the initial 9 by 9 grid has no non-zero value twice in a row, column
  or box, neither has any grid state of the run from \<open>(0, 0)\<close>, the initial grid and the
  grid after every assignment and every reset. Without that hypothesis the claim fails: on
  \<open>stuck_example\<close> the only write is the reset at \<open>(8, 8)\<close>, and the grid before and
  after it has the value 1 many times in row 0.
\<close>

theorem reachable_states_no_duplicates:
  assumes "shape9 g" "no_duplicates g"
  shows "\<forall>s\<in>set (g # fst (solve_log g 0 0)). no_duplicates s"
proof -
  have c: "consistent g" using assms(2) by (simp add: no_duplicates_consistent)
  then have "\<forall>s\<in>set (fst (solve_log g 0 0)). shape9 s \<and> consistent s"
    using log_states(1) [of g 0 0] assms(1) by simp
  then show ?thesis using c by (simp add: no_duplicates_consistent)
qed

theorem reachable_states_no_duplicates_witness:
  "shape9 two_solutions_example \<and> no_duplicates two_solutions_example
   \<and> fst (solve_log two_solutions_example 0 0) \<noteq> []
   \<and> no_duplicates (last (fst (solve_log two_solutions_example 0 0)))"
proof -
  have h: "shape9 two_solutions_example" "no_duplicates two_solutions_example" by code_simp+
  have n: "fst (solve_log two_solutions_example 0 0) \<noteq> []" by code_simp
  then have "last (fst (solve_log two_solutions_example 0 0))
      \<in> set (two_solutions_example # fst (solve_log two_solutions_example 0 0))"
    by simp
  then show ?thesis using h n reachable_states_no_duplicates [OF h] by blast
qed

theorem reachable_state_counterexample:
  "shape9 stuck_example \<and> fst (solve_log stuck_example 0 0) = [stuck_example]
   \<and> \<not> no_duplicates stuck_example"
  by code_simp

text \<open>
  \<^bold>\<open>C4\<close>. Every cell that holds a non-zero value when \<open>solve\<close> is entered at
  \<open>(0, 0)\<close> holds the same value when it returns, whatever the boolean result.
\<close>

theorem prefilled_unchanged:
  assumes "solve g 0 0 = Inr (b, g')" "cell g r c = Inr v" "v \<noteq> 0"
  shows "cell g' r c = Inr v"
  using assms solve_frame(1) by blast

theorem prefilled_unchanged_witness:
  "solve two_solutions_example 0 0 = Inr (True, first_found_example)
   \<and> cell two_solutions_example 6 4 = Inr 3 \<and> cell first_found_example 6 4 = Inr 3"
proof -
  have h: "solve two_solutions_example 0 0 = Inr (True, first_found_example)" by code_simp
  have c: "cell two_solutions_example 6 4 = Inr 3" by code_simp
  show ?thesis using h c prefilled_unchanged [OF h c] by simp
qed

text \<open>
  \<^bold>\<open>C5\<close>. On a 9 by 9 grid and a position inside it, \<open>is_valid_guess g i j v\<close>
  raises nothing and returns true if and only if no cell of row \<open>i\<close>, no cell of column
  \<open>j\<close> and no cell of the box of rows \<open>(i div 3) * 3 .. (i div 3) * 3 + 2\<close> and columns
  \<open>(j div 3) * 3 .. (j div 3) * 3 + 2\<close> holds \<open>v\<close> in the grid it is given, which is the
  current state of the search. This holds for every value \<open>v\<close>, the candidates 1 to 9
  among them.
\<close>

theorem is_valid_guess_iff:
  assumes "shape9 g" "i < 9" "j < 9"
  shows "is_valid_guess g i j v =
     Inr ((\<forall>c<9. g ! i ! c \<noteq> v) \<and> (\<forall>r<9. g ! r ! j \<noteq> v)
        \<and> (\<forall>r c. (i div 3) * 3 \<le> r \<and> r \<le> (i div 3) * 3 + 2
               \<and> (j div 3) * 3 \<le> c \<and> c \<le> (j div 3) * 3 + 2 \<longrightarrow> g ! r ! c \<noteq> v))"
proof -
  have "\<And>x r :: nat. (r \<le> x + 2) = (r < x + 3)" by linarith
  then show ?thesis using is_valid_guess_shape9 [OF assms, of v] by simp
qed

theorem is_valid_guess_iff_witness:
  "shape9 two_solutions_example
   \<and> is_valid_guess two_solutions_example 6 3 4 = Inr True
   \<and> is_valid_guess two_solutions_example 6 3 9 = Inr False"
proof -
  have h: "shape9 two_solutions_example" by code_simp
  have a: "is_valid_guess two_solutions_example 6 3 4 = Inr True" by code_simp
  have b: "is_valid_guess two_solutions_example 6 3 9 = Inr False" by code_simp
  show ?thesis
    using h a b is_valid_guess_iff [OF h, of 6 3 4] by simp
qed

text \<open>
  \<^bold>\<open>C6\<close>, as the code has it. A failed candidate is not undone before the next one is
  tried. The grid changes by writes only, and the log holds the state after each write, so
  a legality check is evaluated in the state written last. For the loop at \<open>(i, j)\<close> from
  the candidate \<open>guess\<close> on, with log \<open>log\<close> and result \<open>r\<close>:
  \<^item> every state written before the end of the loop holds in the cell \<open>(i, j)\<close> a
    candidate between \<open>guess\<close> and 9, never zero: the writes of a failing recursive call
    leave the failed candidate there, and the next write to the cell is the assignment of
    the next legal candidate, which overwrites it;
  \<^item> the cell is reset to zero by one write only, the last write of a loop that returns
    false, and the grid returned is that state; a loop that returns true or raises never
    resets it;
  \<^item> when the recursive call after the assignment of \<open>guess\<close> returns false, the grid
    \<open>g2\<close> it leaves is the last state written, the cell holds \<open>guess\<close> in it, and the
    loop goes on with the check of \<open>guess + 1\<close> in \<open>g2\<close>, with no write in between.
  The counterexample is a run in which the guess 1 at \<open>(8, 7)\<close> fails and the guess 9 is
  assigned next: the states written are \<open>retry_after\<close> (the guess 1), \<open>retry_after\<close>
  again (the reset of \<open>(8, 8)\<close> by the failing call), \<open>retry_nine\<close> and \<open>retry_done\<close>, so
  the candidates 2 to 9 are checked while the cell holds 1 and no state has it at zero.
\<close>

theorem cell_reset_only_after_loop:
  assumes "1 \<le> guess" "guess_loop_log g i j guess = (log, r)"
  shows "(\<forall>s\<in>set (if (\<exists>g'. r = Inr (False, g')) then butlast log else log).
            \<exists>k. cell s i j = Inr k \<and> guess \<le> k \<and> k < 10)
       \<and> (\<forall>g'. r = Inr (False, g') \<longrightarrow> log \<noteq> [] \<and> last log = g' \<and> cell g' i j = Inr 0)
       \<and> (\<forall>g1 ni nj l g2. guess < 10 \<longrightarrow> is_valid_guess g i j guess = Inr True \<longrightarrow>
             set_cell g i j guess = Inr g1 \<longrightarrow> next_location i j = Some (ni, nj) \<longrightarrow>
             solve_log g1 ni nj = (l, Inr (False, g2)) \<longrightarrow>
               g2 = last (g1 # l) \<and> cell g2 i j = Inr guess
               \<and> (\<exists>l'. guess_loop_log g2 i j (guess + 1) = (l', r) \<and> log = g1 # l @ l'))"
proof (intro conjI)
  show "\<forall>s\<in>set (if (\<exists>g'. r = Inr (False, g')) then butlast log else log).
            \<exists>k. cell s i j = Inr k \<and> guess \<le> k \<and> k < 10"
    using loop_log_cells [OF assms] by blast
  show "\<forall>g'. r = Inr (False, g') \<longrightarrow> log \<noteq> [] \<and> last log = g' \<and> cell g' i j = Inr 0"
    using loop_log_cells [OF assms] by blast
  show "\<forall>g1 ni nj l g2. guess < 10 \<longrightarrow> is_valid_guess g i j guess = Inr True \<longrightarrow>
             set_cell g i j guess = Inr g1 \<longrightarrow> next_location i j = Some (ni, nj) \<longrightarrow>
             solve_log g1 ni nj = (l, Inr (False, g2)) \<longrightarrow>
               g2 = last (g1 # l) \<and> cell g2 i j = Inr guess
               \<and> (\<exists>l'. guess_loop_log g2 i j (guess + 1) = (l', r) \<and> log = g1 # l @ l')"
    using retry_step [OF assms(2)] by blast
qed

theorem cell_reset_only_after_loop_witness:
  "guess_loop_log dead_end_example 8 7 1
     = ([dead_end_after, dead_end_after, dead_end_example], Inr (False, dead_end_example))
   \<and> cell dead_end_after 8 7 = Inr 1 \<and> cell dead_end_example 8 7 = Inr 0
   \<and> guess_loop_log retry_example 8 7 1
     = ([retry_after, retry_after, retry_nine, retry_done], Inr (True, retry_done))
   \<and> cell retry_after 8 7 = Inr 1 \<and> cell retry_nine 8 7 = Inr 9 \<and> cell retry_done 8 7 = Inr 9
   \<and> is_valid_guess retry_example 8 7 1 = Inr True
   \<and> set_cell retry_example 8 7 1 = Inr retry_after
   \<and> next_location 8 7 = Some (8, 8)
   \<and> solve_log retry_after 8 8 = ([retry_after], Inr (False, retry_after))
   \<and> guess_loop_log retry_after 8 7 (1 + 1) = ([retry_nine, retry_done], Inr (True, retry_done))"
proof -
  have one: "(1::int) \<le> 1" by simp
  have a: "guess_loop_log dead_end_example 8 7 1
     = ([dead_end_after, dead_end_after, dead_end_example], Inr (False, dead_end_example))"
    by code_simp
  have b: "guess_loop_log retry_example 8 7 1
     = ([retry_after, retry_after, retry_nine, retry_done], Inr (True, retry_done))"
    by code_simp
  have c: "cell dead_end_after 8 7 = Inr 1" "cell retry_after 8 7 = Inr 1"
    "cell retry_nine 8 7 = Inr 9" "cell retry_done 8 7 = Inr 9"
    by code_simp+
  have d: "is_valid_guess retry_example 8 7 1 = Inr True"
    "set_cell retry_example 8 7 1 = Inr retry_after"
    "next_location 8 7 = Some (8, 8)"
    "solve_log retry_after 8 8 = ([retry_after], Inr (False, retry_after))"
    by code_simp+
  have "\<exists>l'. guess_loop_log retry_after 8 7 (1 + 1) = (l', Inr (True, retry_done))
      \<and> [retry_after, retry_after, retry_nine, retry_done] = retry_after # [retry_after] @ l'"
    using cell_reset_only_after_loop [OF one b] d by simp
  then have e: "guess_loop_log retry_after 8 7 (1 + 1)
      = ([retry_nine, retry_done], Inr (True, retry_done))"
    by auto
  have f: "cell dead_end_example 8 7 = Inr 0"
    using cell_reset_only_after_loop [OF one a] by blast
  show ?thesis using a b c d e f by simp
qed

theorem candidate_not_reset_counterexample:
  "cell retry_example 8 7 = Inr 0
   \<and> is_valid_guess retry_example 8 7 1 = Inr True
   \<and> set_cell retry_example 8 7 1 = Inr retry_after
   \<and> next_location 8 7 = Some (8, 8)
   \<and> solve_log retry_after 8 8 = ([retry_after], Inr (False, retry_after))
   \<and> guess_loop_log retry_example 8 7 1
       = ([retry_after, retry_after, retry_nine, retry_done], Inr (True, retry_done))
   \<and> cell retry_after 8 7 = Inr 1 \<and> cell retry_nine 8 7 = Inr 9 \<and> cell retry_done 8 7 = Inr 9"
  by code_simp

text \<open>
  \<^bold>\<open>C7\<close>. For every position \<open>(i, j)\<close> with \<open>i, j < 9\<close>, \<open>next_location i j\<close>
  is the row-major successor (\<open>(i, j + 1)\<close> when \<open>j < 8\<close>, \<open>(i + 1, 0)\<close> when
  \<open>j = 8\<close> and \<open>i < 8\<close>) and is \<open>None\<close> exactly at the last cell \<open>(8, 8)\<close>. It
  takes the position only, so its result depends on nothing else.
\<close>

theorem next_location_row_major:
  assumes "i < 9" "j < 9"
  shows "next_location i j =
           (if j < 8 then Some (i, j + 1) else if i < 8 then Some (i + 1, 0) else None)
         \<and> (next_location i j = None \<longleftrightarrow> (i = 8 \<and> j = 8))"
  using assms by (auto simp: next_location_cases)

theorem next_location_row_major_witness:
  "(8::nat) < 9 \<and> (8::nat) < 9 \<and> next_location 8 8 = None
   \<and> (7::nat) < 9 \<and> next_location 7 8 = Some (8, 0)
   \<and> (3::nat) < 9 \<and> (4::nat) < 9 \<and> next_location 3 4 = Some (3, 5)"
  using next_location_row_major [of 8 8] next_location_row_major [of 7 8]
    next_location_row_major [of 3 4]
  by simp

text \<open>
  \<^bold>\<open>C8\<close>. \<open>solve\<close> is a function of the grid and the position alone (the source
  reads nothing else and iterates over ranges only), so two runs from equal grids return
  the same boolean and the same grid. Which solution it returns: whenever a 9 by 9 grid
  \<open>g\<close> has a solution \<open>h\<close> at all (a solved grid that keeps the non-zero cells of
  \<open>g\<close>), \<open>solve\<close> at \<open>(0, 0)\<close> returns true with a solution of \<open>g\<close> that is
  \<open>h\<close> itself or is found before \<open>h\<close> by the depth-first search in row-major order with
  ascending candidates. The grid returned is thus the first of all solutions in that order,
  also when there are several.
\<close>

theorem solve_finds_first_solution:
  assumes "shape9 g" "shape9 h" "solved h" "extends g h"
  shows "\<exists>g'. solve g 0 0 = Inr (True, g') \<and> solved g' \<and> extends g g'
            \<and> (g' = h \<or> found_before g' h)"
proof -
  have H: "consistent h" "\<forall>r<9. \<forall>c<9. 1 \<le> h ! r ! c \<and> h ! r ! c \<le> 9"
    using solved_pointwise [OF assms(3)] by simp_all
  have ext: "\<forall>r<9. \<forall>c<9. g ! r ! c \<noteq> 0 \<longrightarrow> h ! r ! c = g ! r ! c"
    using assms(4) by (simp add: extends_pointwise)
  have cg: "consistent g" using H(1) assms(4) by (rule extends_consistent)
  have "\<forall>r<9. \<forall>c<9. 0 \<le> g ! r ! c \<and> g ! r ! c \<le> 9"
  proof (intro allI impI)
    fix r c :: nat assume rc: "r < 9" "c < 9"
    show "0 \<le> g ! r ! c \<and> g ! r ! c \<le> 9"
    proof (cases "g ! r ! c = 0")
      case True
      then show ?thesis by simp
    next
      case False
      then have "h ! r ! c = g ! r ! c" using ext rc by blast
      moreover have "1 \<le> h ! r ! c \<and> h ! r ! c \<le> 9" using H(2) rc by blast
      ultimately show ?thesis by simp
    qed
  qed
  then have rg: "cells_in_range g" using assms(1) by (simp add: cells_in_rangeI)
  have "filled_before g (9 * 0 + 0)" by (simp add: filled_before_def)
  then obtain g' where run: "solve g 0 0 = Inr (True, g')" and first: "g' = h \<or> precedes g' h"
    using solve_finds_first(1) [OF assms(2) H, of g 0 0] assms(1) ext by auto
  have inv: "shape9 g' \<and> consistent g' \<and> cells_in_range g' \<and> filled_from g' (9 * 0 + 0)"
  proof -
    have "\<forall>b s. solve g 0 0 = Inr (b, s) \<longrightarrow>
        shape9 s \<and> consistent s \<and> cells_in_range s \<and> (b \<longrightarrow> filled_from s (9 * 0 + 0))"
      using solve_sound(1) [of g 0 0] assms(1) cg rg by simp
    then show ?thesis using run by blast
  qed
  then have "solved g'" using solved_from_invariant by simp
  moreover have "extends g g'"
    unfolding extends_pointwise
  proof (intro allI impI)
    fix r c :: nat assume rc: "r < 9" "c < 9" "g ! r ! c \<noteq> 0"
    have "cell g r c = Inr (g ! r ! c)" using assms(1) rc by (simp add: cell_shape9)
    then have "cell g' r c = Inr (g ! r ! c)" using solve_frame(1) run rc(3) by blast
    then show "g' ! r ! c = g ! r ! c" using cell_value [of g' r c] inv rc by simp
  qed
  ultimately show ?thesis using run first by (auto simp: found_before_precedes)
qed

theorem solve_finds_first_solution_witness:
  "shape9 two_solutions_example \<and> shape9 solution_example \<and> solved solution_example
   \<and> extends two_solutions_example solution_example
   \<and> solve two_solutions_example 0 0 = Inr (True, first_found_example)
   \<and> first_found_example \<noteq> solution_example
   \<and> found_before first_found_example solution_example"
proof -
  have h: "shape9 two_solutions_example" "shape9 solution_example" "solved solution_example"
    "extends two_solutions_example solution_example"
    by code_simp+
  have r: "solve two_solutions_example 0 0 = Inr (True, first_found_example)" by code_simp
  have n: "first_found_example \<noteq> solution_example" by code_simp
  show ?thesis using h r n solve_finds_first_solution [OF h] by auto
qed

text \<open>
  \<^bold>\<open>C9\<close>, as the code has it. \<open>create_puzzle_grid\<close> checks no length: a string of
  ASCII digits of any length gives a grid, the string cut into rows of nine digits with a
  shorter last row when the length is no multiple of nine; a string with a character that
  \<^verbatim>\<open>int\<close> rejects (of the 8-bit characters, every one that is no ASCII digit) raises
  \<^verbatim>\<open>ValueError\<close> and gives no grid. The source has no
  \<^verbatim>\<open>InvalidInputFormat\<close> error. The counterexample is a string of two digits, which
  gives a grid of one row of two cells.
\<close>

theorem create_puzzle_grid_result:
  "create_puzzle_grid s =
     (if \<forall>c\<in>set s. is_digit c
      then Inr (map (map digit_value) (split_string_interval s 9))
      else Inl ValueError)"
proof -
  have "(\<forall>d\<in>set (split_string_interval s 9). \<forall>c\<in>set d. is_digit c) = (\<forall>c\<in>set s. is_digit c)"
    using set_split [of 9 s] by (simp, blast)
  then show ?thesis by (simp add: create_puzzle_grid_def create_rows_result)
qed

theorem create_puzzle_grid_result_witness:
  "create_puzzle_grid ''1234567890'' = Inr [[1, 2, 3, 4, 5, 6, 7, 8, 9], [0]]
   \<and> create_puzzle_grid ''12x4'' = Inl ValueError"
proof -
  have "\<forall>c\<in>set ''1234567890''. is_digit c" by code_simp
  moreover have "\<not> (\<forall>c\<in>set ''12x4''. is_digit c)" by code_simp
  moreover have "map (map digit_value) (split_string_interval ''1234567890'' 9)
      = [[1, 2, 3, 4, 5, 6, 7, 8, 9], [0]]" by code_simp
  ultimately show ?thesis
    using create_puzzle_grid_result [of "''1234567890''"] create_puzzle_grid_result [of "''12x4''"]
    by simp
qed

theorem short_string_counterexample:
  "length ''12'' \<noteq> 81 \<and> create_puzzle_grid ''12'' = Inr [[1, 2]]"
  by code_simp

text \<open>
  \<^bold>\<open>C10\<close>. On a 9 by 9 grid with no zero cell, \<open>solve\<close> at \<open>(0, 0)\<close> returns true
  and leaves the grid as it is, whether or not the grid satisfies the constraints: the
  witness is a grid of 81 ones.
\<close>

theorem full_grid_returns_true:
  assumes "shape9 g" "full g"
  shows "solve g 0 0 = Inr (True, g)"
  using assms by (simp add: solve_full)

theorem full_grid_returns_true_witness:
  "shape9 all_ones \<and> full all_ones \<and> \<not> no_duplicates all_ones
   \<and> solve all_ones 0 0 = Inr (True, all_ones)"
proof -
  have h: "shape9 all_ones" "full all_ones" by code_simp+
  have n: "\<not> no_duplicates all_ones" by code_simp
  show ?thesis using h n full_grid_returns_true [OF h] by simp
qed

end
